theory Spec2Isabelle
  imports Main "HOL-Library.Multiset" "HOL-Library.Word"
begin

section \<open>Edges and the triangulation interface\<close>

text \<open>
  The search engine of \<^verbatim>\<open>src/algo/flip_distance_source.cpp\<close> works on the class
  \<^verbatim>\<open>TriangulatedGraph\<close>, which is declared in another file of the repository. Its methods
  are taken as a parameter: a record of functions, one field per method the
  search engine calls. A mutating method returns the mutated graph next to its result.
  The macro \<^verbatim>\<open>assert\<close> of \<^verbatim>\<open><cassert>\<close> comes from outside the file as well: the field
  \<open>assertsActive\<close> says whether it is active (\<^verbatim>\<open>NDEBUG\<close> not defined) or expands to
  nothing.
\<close>

type_synonym vertex = int

type_synonym edge = "vertex \<times> vertex"

type_synonym edge_pairs = "(edge \<times> edge) list"

record 'g graph_ops =
  getEdges :: "'g \<Rightarrow> edge list"
  hasEdge :: "'g \<Rightarrow> edge \<Rightarrow> bool"
  flip :: "'g \<Rightarrow> edge \<Rightarrow> 'g \<times> edge"
  getNeighbors :: "'g \<Rightarrow> edge \<Rightarrow> edge \<times> edge \<times> edge \<times> edge"
  flippable :: "'g \<Rightarrow> edge \<Rightarrow> bool"
  shareTriangle :: "'g \<Rightarrow> edge \<Rightarrow> edge \<Rightarrow> bool"
  getSize :: "'g \<Rightarrow> nat"
  subGraph :: "'g \<Rightarrow> vertex \<Rightarrow> vertex \<Rightarrow> 'g"
  getVertexFilter :: "vertex \<Rightarrow> vertex \<Rightarrow> vertex \<Rightarrow> bool"
  getVertexMapper :: "'g \<Rightarrow> vertex \<Rightarrow> vertex \<Rightarrow> vertex \<Rightarrow> vertex"
  getSources :: "'g \<Rightarrow> edge list list"
  graphEq :: "'g \<Rightarrow> 'g \<Rightarrow> bool"
  mkEdge :: "vertex \<Rightarrow> vertex \<Rightarrow> edge"
  assertsActive :: bool

text \<open>
  A call that does not return a value has either used up its fuel (see below) or was
  aborted by a failed assertion. A \<open>run\<close> is such a stop or the returned value.
\<close>

datatype stop = OutOfFuel | AssertionFailed

type_synonym 'a run = "stop + 'a"

text \<open>
  \<^verbatim>\<open>getNeighbors\<close> yields four edges: the source indexes the result from 0 to 3 and
  iterates over it. \<open>neighborList\<close> is that iteration order.
\<close>

definition neighborList :: "edge \<times> edge \<times> edge \<times> edge \<Rightarrow> edge list" where
  "neighborList n = (case n of (n0, n1, n2, n3) \<Rightarrow> [n0, n1, n2, n3])"

section \<open>Conflict tracker\<close>

text \<open>
  \<^verbatim>\<open>std::unordered_multiset<Edge>\<close> is a multiset of edges. \<^verbatim>\<open>eraseOne\<close> removes one
  occurrence when \<^verbatim>\<open>find\<close> succeeds and does nothing otherwise.
\<close>

definition eraseOne :: "'a multiset \<Rightarrow> 'a \<Rightarrow> 'a multiset" where
  "eraseOne s e = (if e \<in># s then s - {#e#} else s)"

definition addNeighborsToForbid ::
  "'g graph_ops \<Rightarrow> edge \<Rightarrow> 'g \<Rightarrow> edge multiset \<Rightarrow> edge multiset" where
  "addNeighborsToForbid ops e g forbid =
     fold (\<lambda>neighbor fb. add_mset neighbor fb) (neighborList (getNeighbors ops g e))
       (add_mset e forbid)"

definition removeNeighborsFromForbid ::
  "'g graph_ops \<Rightarrow> edge \<Rightarrow> 'g \<Rightarrow> edge multiset \<Rightarrow> edge multiset" where
  "removeNeighborsFromForbid ops e g forbid =
     fold (\<lambda>neighbor fb. eraseOne fb neighbor) (neighborList (getNeighbors ops g e))
       (eraseOne forbid e)"

section \<open>Helpers of the search engine\<close>

text \<open>\<^verbatim>\<open>addNeighbors\<close>: appends the pairs (neighbors[0], neighbors[1]) and
  (neighbors[2], neighbors[3]) of \<open>e\<close> in \<open>g\<close> to \<open>next\<close>.\<close>

definition addNeighbors :: "'g graph_ops \<Rightarrow> edge_pairs \<Rightarrow> 'g \<Rightarrow> edge \<Rightarrow> edge_pairs" where
  "addNeighbors ops nxt g e =
     (case getNeighbors ops g e of (n0, n1, n2, n3) \<Rightarrow> nxt @ [(n0, n1), (n2, n3)])"

definition filterAndMapEdgePairs ::
  "'g graph_ops \<Rightarrow> edge_pairs \<Rightarrow> (vertex \<Rightarrow> bool) \<Rightarrow> (vertex \<Rightarrow> vertex) \<Rightarrow> edge_pairs" where
  "filterAndMapEdgePairs ops sources flt mapper =
     map (\<lambda>pair. (mkEdge ops (mapper (fst (fst pair))) (mapper (snd (fst pair))),
                   mkEdge ops (mapper (fst (snd pair))) (mapper (snd (snd pair)))))
       (filter (\<lambda>pair. flt (fst (fst pair)) \<and> flt (snd (fst pair))
                      \<and> flt (fst (snd pair)) \<and> flt (snd (snd pair))) sources)"

definition isIndependentSet :: "'g graph_ops \<Rightarrow> edge list \<Rightarrow> 'g \<Rightarrow> bool" where
  "isIndependentSet ops sources g =
     list_all (\<lambda>e. list_all (\<lambda>e2. \<not> (e \<noteq> e2 \<and> shareTriangle ops g e e2)) sources) sources"

text \<open>
  The scan \<^verbatim>\<open>for (e : g.getEdges()) { result = g.flip(e); if (end.hasEdge(result)) ...;
  g.flip(result); }\<close> of \<^verbatim>\<open>search\<close> and \<^verbatim>\<open>performFreeFlips\<close>. The edge list is read once,
  before the loop; the graph is mutated by each flip and by each flip back, so it is
  threaded through. \<open>Inr (e, result, g')\<close>: the first edge \<open>e\<close> whose flip gives an edge
  \<open>result\<close> of the target, with the graph \<open>g'\<close> after that flip. \<open>Inl g'\<close>: no such edge,
  with the graph after all flips and flips back.
\<close>

fun scanFree :: "'g graph_ops \<Rightarrow> 'g \<Rightarrow> 'g \<Rightarrow> edge list \<Rightarrow> 'g + (edge \<times> edge \<times> 'g)" where
  "scanFree ops g target [] = Inl g"
| "scanFree ops g target (e # es) =
     (case flip ops g e of (g', result) \<Rightarrow>
        if hasEdge ops target result then Inr (e, result, g')
        else scanFree ops (fst (flip ops g' result)) target es)"

text \<open>
  The functions asserted by \<^verbatim>\<open>search\<close>. In the source each of them runs through its
  loop, asserts at every edge and returns true; as predicates, \<open>assertNoCommonEdge\<close>
  holds when no edge of \<open>start\<close> is an edge of \<open>target\<close>, and \<open>assertNoFreeEdge\<close> when the
  scan over a copy of \<open>start\<close> finds no edge whose flip is an edge of \<open>target\<close>: they
  hold exactly when no assertion inside them fails.
\<close>

definition assertNoCommonEdge :: "'g graph_ops \<Rightarrow> 'g \<Rightarrow> 'g \<Rightarrow> bool" where
  "assertNoCommonEdge ops start target =
     list_all (\<lambda>e. \<not> hasEdge ops target e) (getEdges ops start)"

definition assertNoFreeEdge :: "'g graph_ops \<Rightarrow> 'g \<Rightarrow> 'g \<Rightarrow> bool" where
  "assertNoFreeEdge ops start target =
     (case scanFree ops start target (getEdges ops start) of Inl _ \<Rightarrow> True | Inr _ \<Rightarrow> False)"

definition assertNonTrivial :: "'g graph_ops \<Rightarrow> 'g \<Rightarrow> 'g \<Rightarrow> bool" where
  "assertNonTrivial ops start target =
     (assertNoCommonEdge ops start target \<and> assertNoFreeEdge ops start target)"

section \<open>Free-flip propagation\<close>

type_synonym 'g fd_problem = "('g \<times> 'g) \<times> edge_pairs"

text \<open>
  One iteration of the \<^verbatim>\<open>while (!cur.empty())\<close> loop of \<^verbatim>\<open>performFreeFlips\<close> on the
  popped problem \<open>fd\<close>: \<open>Inr [a, b]\<close> are the two sub-problems pushed (in push order)
  when a free edge was found, \<open>Inl fd\<close> is the problem appended to \<^verbatim>\<open>noFree\<close>.
\<close>

definition freeFlipStep :: "'g graph_ops \<Rightarrow> 'g fd_problem \<Rightarrow> 'g fd_problem + 'g fd_problem list" where
  "freeFlipStep ops fd =
     (let g1 = fst (fst fd); g2 = snd (fst fd) in
      case scanFree ops g1 g2 (getEdges ops g1) of
        Inl _ \<Rightarrow> Inl fd
      | Inr (e, result, g1') \<Rightarrow>
          (let nxt = addNeighbors ops
                       (filter (\<lambda>pair. \<not> (fst pair = e \<or> snd pair = e)) (snd fd)) g1' result;
               v1 = fst result; v2 = snd result
           in Inr [((subGraph ops g1' v1 v2, subGraph ops g2 v1 v2),
                    filterAndMapEdgePairs ops nxt (getVertexFilter ops v1 v2)
                      (getVertexMapper ops g1' v1 v2)),
                   ((subGraph ops g1' v2 v1, subGraph ops g2 v2 v1),
                    filterAndMapEdgePairs ops nxt (getVertexFilter ops v2 v1)
                      (getVertexMapper ops g1' v2 v1))]))"

text \<open>
  The work-list loop. The stack \<open>cur\<close> is a list with its top at the head, so pushing
  \<open>a\<close> and then \<open>b\<close> leaves \<open>b\<close> on top. The loop has no bound in the source; the model
  counts iterations down from \<open>fuel\<close> and stops with \<open>OutOfFuel\<close> when they run out.
\<close>

fun performFreeFlipsLoop ::
  "'g graph_ops \<Rightarrow> nat \<Rightarrow> 'g fd_problem list \<Rightarrow> 'g fd_problem list \<Rightarrow> int
     \<Rightarrow> ('g fd_problem list \<times> int) run" where
  "performFreeFlipsLoop ops fuel [] noFree k = Inr (noFree, k)"
| "performFreeFlipsLoop ops 0 (fd # cur) noFree k = Inl OutOfFuel"
| "performFreeFlipsLoop ops (Suc fuel) (fd # cur) noFree k =
     (case freeFlipStep ops fd of
        Inl stuck \<Rightarrow> performFreeFlipsLoop ops fuel cur (noFree @ [stuck]) k
      | Inr pushed \<Rightarrow> performFreeFlipsLoop ops fuel (rev pushed @ cur) noFree (k - 1))"

definition performFreeFlips ::
  "'g graph_ops \<Rightarrow> nat \<Rightarrow> 'g \<times> 'g \<Rightarrow> edge_pairs \<Rightarrow> int \<Rightarrow> ('g fd_problem list \<times> int) run" where
  "performFreeFlips ops fuel initialPair initialSource k =
     performFreeFlipsLoop ops fuel [(initialPair, initialSource)] [] k"

text \<open>
  The number of free flips committed by the work-list loop: the iterations in which
  \<open>freeFlipStep\<close> found a free edge, which are the iterations that execute \<^verbatim>\<open>k--\<close>.
\<close>

fun committedFreeFlips :: "'g graph_ops \<Rightarrow> nat \<Rightarrow> 'g fd_problem list \<Rightarrow> nat" where
  "committedFreeFlips ops fuel [] = 0"
| "committedFreeFlips ops 0 (fd # cur) = 0"
| "committedFreeFlips ops (Suc fuel) (fd # cur) =
     (case freeFlipStep ops fd of
        Inl stuck \<Rightarrow> committedFreeFlips ops fuel cur
      | Inr pushed \<Rightarrow> Suc (committedFreeFlips ops fuel (rev pushed @ cur)))"

section \<open>The decision procedures\<close>

text \<open>
  The process-wide \<^verbatim>\<open>int branchCounter\<close> is threaded through every call: a procedure
  takes the counter and returns its boolean result with the new counter. \<^verbatim>\<open>int\<close> is
  modelled by the mathematical integers: signed overflow is undefined in the source, so
  the model describes the runs in which every \<^verbatim>\<open>int\<close>, the counter included, stays
  between \<open>-2^31\<close> and \<open>2^31 - 1\<close>. \<^verbatim>\<open>unsigned int\<close> is \<open>32 word\<close> and \<^verbatim>\<open>size_t\<close> is
  \<open>64 word\<close>, both wrapping.
\<close>

type_synonym outcome = "(bool \<times> int) run"



text \<open>
  The edge loop of \<^verbatim>\<open>flipDistanceDecision\<close>: the first edge \<open>e\<close> that is an edge of the
  target gives \<open>(g, e, 0)\<close>, the first edge whose flip \<open>result\<close> is one gives
  \<open>(g', result, 1)\<close> with \<open>g'\<close> the graph after the flip; the last component is what
  the source subtracts from \<open>k\<close>.
\<close>

fun scanShared :: "'g graph_ops \<Rightarrow> 'g \<Rightarrow> 'g \<Rightarrow> edge list \<Rightarrow> ('g \<times> edge \<times> int) option" where
  "scanShared ops g target [] = None"
| "scanShared ops g target (e # es) =
     (if hasEdge ops target e then Some (g, e, 0)
      else case flip ops g e of (g', result) \<Rightarrow>
        if hasEdge ops target result then Some (g', result, 1)
        else scanShared ops (fst (flip ops g' result)) target es)"

text \<open>\<^verbatim>\<open>for (source : sources) if (flipDistanceDecision(k, source)) return true;
  return false;\<close>\<close>

fun trySources :: "(edge list \<Rightarrow> int \<Rightarrow> outcome) \<Rightarrow> edge list list \<Rightarrow> int \<Rightarrow> outcome" where
  "trySources decide [] bc = Inr (False, bc)"
| "trySources decide (source # sources) bc =
     (case decide source bc of
        Inl s \<Rightarrow> Inl s
      | Inr (True, bc') \<Rightarrow> Inr (True, bc')
      | Inr (False, bc') \<Rightarrow> trySources decide sources bc')"

text \<open>
  The lower-bound test \<^verbatim>\<open>g.getSize() - 3 > k - sources.size()\<close> of \<^verbatim>\<open>search\<close>.
  \<^verbatim>\<open>sources.size()\<close> is a \<^verbatim>\<open>size_t\<close>, so \<open>k\<close> is converted to \<^verbatim>\<open>size_t\<close> and both sides
  are computed and compared as unsigned 64-bit values.
\<close>

definition lowerBoundPrune :: "nat \<Rightarrow> int \<Rightarrow> nat \<Rightarrow> bool" where
  "lowerBoundPrune size_g k nsources =
     ((word_of_nat size_g - 3 :: 64 word) > word_of_int k - word_of_nat nsources)"

text \<open>\<^verbatim>\<open>for (e : sources) { assert(g.flippable(e)); result = g.flip(e);
  addNeighbors(next, g, result); }\<close>\<close>

fun flipSources ::
  "'g graph_ops \<Rightarrow> edge list \<Rightarrow> 'g \<Rightarrow> edge_pairs \<Rightarrow> ('g \<times> edge_pairs) run" where
  "flipSources ops [] g nxt = Inr (g, nxt)"
| "flipSources ops (e # es) g nxt =
     (if assertsActive ops \<and> \<not> flippable ops g e then Inl AssertionFailed
      else case flip ops g e of (g', result) \<Rightarrow>
        flipSources ops es g' (addNeighbors ops nxt g' result))"

text \<open>
  \<^verbatim>\<open>for (; i <= k; ++i) if (algo.search(source, algo.start, i)) { k -= i; break; }\<close>:
  the result is the final \<open>i\<close>, the final \<open>k\<close> and the counter.
\<close>

function budgetLoop ::
  "(int \<Rightarrow> int \<Rightarrow> outcome) \<Rightarrow> int \<Rightarrow> int \<Rightarrow> int \<Rightarrow> (int \<times> int \<times> int) run" where
  "budgetLoop srch i k bc =
     (if i \<le> k then
        (case srch i bc of
           Inl s \<Rightarrow> Inl s
         | Inr (True, bc') \<Rightarrow> Inr (i, k - i, bc')
         | Inr (False, bc') \<Rightarrow> budgetLoop srch (i + 1) k bc')
      else Inr (i, k, bc))"
  by pat_completeness auto
termination
  by (relation "measure (\<lambda>(srch, i, k, bc). nat (k + 1 - i))") auto

text \<open>The loop over the sub-problems returned by \<^verbatim>\<open>performFreeFlips\<close>, with the final
  \<^verbatim>\<open>return k >= 0\<close>.\<close>

fun allocateBudgets ::
  "('p \<Rightarrow> int \<Rightarrow> int \<Rightarrow> outcome) \<Rightarrow> 'p list \<Rightarrow> int \<Rightarrow> int \<Rightarrow> outcome" where
  "allocateBudgets srch [] k bc = Inr (k \<ge> 0, bc)"
| "allocateBudgets srch (pair # rest) k bc =
     (case budgetLoop (srch pair) 0 k bc of
        Inl s \<Rightarrow> Inl s
      | Inr (i, k', bc') \<Rightarrow>
          if i = k' + 1 then Inr (False, bc') else allocateBudgets srch rest k' bc')"

text \<open>
  \<^verbatim>\<open>for (auto i = s1.getSize() - 3; i <= k; ++i) if (algo.flipDistanceDecision(i))
  return algo2.flipDistanceDecision(k - i); return false;\<close> The counter \<open>i\<close> is a
  \<^verbatim>\<open>size_t\<close>, held here as its value; \<open>k\<close> is positive where the loop runs, so its
  conversion to \<^verbatim>\<open>size_t\<close> is \<open>nat k\<close> and \<open>i\<close> cannot wrap before it exceeds \<open>k\<close>.
  Both calls convert their argument to \<^verbatim>\<open>unsigned int\<close>.
\<close>

function splitLoop ::
  "(32 word \<Rightarrow> int \<Rightarrow> outcome) \<Rightarrow> (32 word \<Rightarrow> int \<Rightarrow> outcome) \<Rightarrow> nat \<Rightarrow> int \<Rightarrow> int \<Rightarrow> outcome" where
  "splitLoop decideLeft decideRight i k bc =
     (if i \<le> nat k then
        (case decideLeft (word_of_nat i) bc of
           Inl s \<Rightarrow> Inl s
         | Inr (True, bc') \<Rightarrow> decideRight (word_of_int (k - int i)) bc'
         | Inr (False, bc') \<Rightarrow> splitLoop decideLeft decideRight (i + 1) k bc')
      else Inr (False, bc))"
  by pat_completeness auto
termination
  by (relation "measure (\<lambda>(dl, dr, i, k, bc). Suc (nat k) - i)") auto

text \<open>
  The enumeration \<^verbatim>\<open>generateNext\<close> of the edge-pair overload of \<^verbatim>\<open>search\<close>. The
  lambda captures \<^verbatim>\<open>cur\<close> and \<^verbatim>\<open>forbid\<close> by reference, so both are part of the state it
  returns, next to the counter. \<open>pairs\<close> is the part of \<^verbatim>\<open>sources\<close> from \<^verbatim>\<open>index\<close> on.
  \<open>pickEdge\<close> is the body of the loop over the two edges of a pair.
\<close>

type_synonym enum_state = "edge list \<times> edge multiset \<times> int"

definition pickEdge ::
  "'g graph_ops \<Rightarrow> 'g \<Rightarrow> (enum_state \<Rightarrow> (bool \<times> enum_state) run) \<Rightarrow> edge \<Rightarrow> enum_state
     \<Rightarrow> (bool \<times> enum_state) run" where
  "pickEdge ops g generate e st =
     (case st of (cur, forbid, bc) \<Rightarrow>
        if \<not> flippable ops g e \<or> count forbid e > 0 then Inr (False, st)
        else
          (case generate (cur @ [e], addNeighborsToForbid ops e g forbid, bc) of
             Inl s \<Rightarrow> Inl s
           | Inr (ret, (cur', forbid', bc')) \<Rightarrow>
               Inr (ret, (butlast cur', removeNeighborsFromForbid ops e g forbid', bc'))))"

fun generateNext ::
  "'g graph_ops \<Rightarrow> 'g \<Rightarrow> (edge list \<Rightarrow> int \<Rightarrow> outcome) \<Rightarrow> edge_pairs \<Rightarrow> enum_state
     \<Rightarrow> (bool \<times> enum_state) run" where
  "generateNext ops g srch [] st =
     (case st of (cur, forbid, bc) \<Rightarrow>
        (case srch cur bc of Inl s \<Rightarrow> Inl s | Inr (ret, bc') \<Rightarrow> Inr (ret, (cur, forbid, bc'))))"
| "generateNext ops g srch (pair # pairs) st =
     (case generateNext ops g srch pairs st of
        Inl s \<Rightarrow> Inl s
      | Inr (True, st1) \<Rightarrow> Inr (True, st1)
      | Inr (False, st1) \<Rightarrow>
          (case pickEdge ops g (\<lambda>s. generateNext ops g srch pairs s) (fst pair) st1 of
             Inl s \<Rightarrow> Inl s
           | Inr (True, st2) \<Rightarrow> Inr (True, st2)
           | Inr (False, st2) \<Rightarrow>
               (case pickEdge ops g (\<lambda>s. generateNext ops g srch pairs s) (snd pair) st2 of
                  Inl s \<Rightarrow> Inl s
                | Inr (True, st3) \<Rightarrow> Inr (True, st3)
                | Inr (False, st3) \<Rightarrow> Inr (False, st3))))"

text \<open>
  The four procedures call one another. Nothing in the source bounds the depth of these
  calls, so each takes a fuel argument that decreases at every call and stops with
  \<open>OutOfFuel\<close> without fuel. The members \<^verbatim>\<open>start\<close> and \<^verbatim>\<open>end\<close> of a \<^verbatim>\<open>FlipDistanceSource\<close> object
  are the arguments \<open>start\<close> and \<open>target\<close>; constructing \<^verbatim>\<open>algo(s, e)\<close> and calling a
  method on it is a call with these two graphs.

  \<^item> \<open>flipDistanceDecision\<close> is \<^verbatim>\<open>flipDistanceDecision(unsigned int k)\<close>. The cast
    \<^verbatim>\<open>(int) k\<close> is \<open>sint k\<close>.
  \<^item> \<open>search\<close> is the overload on a flat edge list, \<open>searchPairs\<close> the overload on
    edge pairs, which only reads the member \<^verbatim>\<open>end\<close>.
  \<^item> \<open>splitAndSearch\<close> computes \<^verbatim>\<open>sources1\<close> and \<^verbatim>\<open>sources2\<close> and never uses them
    (the source marks this with a FIXME); the model leaves them out.
  \<^item> An \<^verbatim>\<open>assert\<close> whose condition is false stops the call with \<open>AssertionFailed\<close>
    where assertions are active, after the counter was incremented; where they are
    not, the condition is not evaluated.

  Modelled from the spec: the two-argument overload \<^verbatim>\<open>flipDistanceDecision(k, source)\<close>
  called in the loop over \<^verbatim>\<open>getSources()\<close> is declared in a file that is missing here. By
  the contract \<open>decide(sources, current, target, k)\<close> of the branch search it is the
  flat-edge-list \<open>search\<close> on \<^verbatim>\<open>start\<close> with the budget converted to \<^verbatim>\<open>int\<close>.
\<close>

function flipDistanceDecision :: "'g graph_ops \<Rightarrow> nat \<Rightarrow> 'g \<Rightarrow> 'g \<Rightarrow> 32 word \<Rightarrow> int \<Rightarrow> outcome"
  and search :: "'g graph_ops \<Rightarrow> nat \<Rightarrow> 'g \<Rightarrow> edge list \<Rightarrow> 'g \<Rightarrow> int \<Rightarrow> int \<Rightarrow> outcome"
  and searchPairs :: "'g graph_ops \<Rightarrow> nat \<Rightarrow> 'g \<Rightarrow> edge_pairs \<Rightarrow> 'g \<Rightarrow> int \<Rightarrow> int \<Rightarrow> outcome"
  and splitAndSearch ::
    "'g graph_ops \<Rightarrow> nat \<Rightarrow> 'g \<Rightarrow> 'g \<Rightarrow> edge \<Rightarrow> int \<Rightarrow> edge list \<Rightarrow> int \<Rightarrow> outcome"
  where
  "flipDistanceDecision ops fuel start target k bc =
     (case fuel of 0 \<Rightarrow> Inl OutOfFuel | Suc fuel' \<Rightarrow>
      if graphEq ops start target then Inr (True, bc)
      else
        (case scanShared ops start target (getEdges ops start) of
           Some (g, divider, used) \<Rightarrow> splitAndSearch ops fuel' target g divider (sint k - used) [] bc
         | None \<Rightarrow>
             trySources (\<lambda>source c. search ops fuel' target source start (sint k) c)
               (getSources ops start) bc))"
| "search ops fuel target sources g k bc =
     (case fuel of 0 \<Rightarrow> Inl OutOfFuel | Suc fuel' \<Rightarrow>
      if assertsActive ops \<and> \<not> assertNonTrivial ops g target then Inl AssertionFailed
      else if assertsActive ops \<and> \<not> isIndependentSet ops sources g then Inl AssertionFailed
      else if graphEq ops g target \<and> k \<ge> 0 then Inr (True, bc + 1)
      else if lowerBoundPrune (getSize ops g) k (length sources) then Inr (False, bc + 1)
      else if sources = [] then Inr (False, bc + 1)
      else
        (case scanFree ops g target (getEdges ops g) of
           Inr (e, result, g') \<Rightarrow>
             if count_list sources e > 0
             then splitAndSearch ops fuel' target g' result (k - 1) sources (bc + 1)
             else Inr (False, bc + 1)
         | Inl g0 \<Rightarrow>
             (case flipSources ops sources g0 [] of
                Inl s \<Rightarrow> Inl s
              | Inr (g1, nxt) \<Rightarrow>
                (case performFreeFlips ops fuel' (g1, target) nxt (k - int (length sources)) of
                   Inl s \<Rightarrow> Inl s
                 | Inr (result, k') \<Rightarrow>
                     if k' < 0 then Inr (False, bc + 1)
                     else allocateBudgets
                            (\<lambda>pair i c. searchPairs ops fuel' (snd (fst pair)) (snd pair)
                                           (fst (fst pair)) i c)
                            result k' (bc + 1)))))"
| "searchPairs ops fuel target sources g k bc =
     (case fuel of 0 \<Rightarrow> Inl OutOfFuel | Suc fuel' \<Rightarrow>
      if assertsActive ops \<and> \<not> assertNonTrivial ops g target then Inl AssertionFailed
      else
        (case generateNext ops g (\<lambda>cur c. search ops fuel' target cur g k c) sources
                ([], {#}, bc) of
           Inl s \<Rightarrow> Inl s
         | Inr (ret, (cur, forbid, bc')) \<Rightarrow> Inr (ret, bc')))"
| "splitAndSearch ops fuel target g divider k sources bc =
     (case fuel of 0 \<Rightarrow> Inl OutOfFuel | Suc fuel' \<Rightarrow>
      if k \<le> 0 then Inr (graphEq ops g target \<and> k = 0, bc)
      else
        (let v1 = fst divider; v2 = snd divider;
             s1 = subGraph ops g v1 v2; e1 = subGraph ops target v1 v2;
             s2 = subGraph ops g v2 v1; e2 = subGraph ops target v2 v1
         in splitLoop (\<lambda>i c. flipDistanceDecision ops fuel' s1 e1 i c)
              (\<lambda>i c. flipDistanceDecision ops fuel' s2 e2 i c)
              (unat (word_of_nat (getSize ops s1) - 3 :: 64 word)) k bc))"
  by pat_completeness auto
termination
  by (relation "measure (\<lambda>x. case x of
        Inl (Inl (ops, fuel, r)) \<Rightarrow> fuel
      | Inl (Inr (ops, fuel, r)) \<Rightarrow> fuel
      | Inr (Inl (ops, fuel, r)) \<Rightarrow> fuel
      | Inr (Inr (ops, fuel, r)) \<Rightarrow> fuel)") auto

declare budgetLoop.simps [simp del] splitLoop.simps [simp del]

declare flipDistanceDecision.simps [simp del] search.simps [simp del]
  searchPairs.simps [simp del] splitAndSearch.simps [simp del]

section \<open>A triangulation of a convex polygon\<close>

text \<open>
  Modelled from the spec: the class \<^verbatim>\<open>TriangulatedGraph\<close> and the type \<^verbatim>\<open>Edge\<close> are
  declared in files of the repository that are missing here. The spec describes a triangulation as the diagonals of
  a convex polygon on the vertices \<open>0..n-1\<close> with the boundary edges always present, and
  an edge as an unordered pair of vertices. Here an edge is kept with its smaller vertex
  first, and a polygon is its vertex count with the list of its diagonals in iteration
  order. This instance of the interface is used to run the procedures on concrete
  polygons; the general statements below hold for every instance.

  \<^item> \<open>polyHasEdge\<close>: a diagonal of the list or a boundary edge.
  \<^item> \<open>polyApexes\<close>: the third vertices of the two triangles on a diagonal, the first
    between its end points and the second outside them.
  \<^item> \<open>polyFlip\<close>: replaces a diagonal, where it stands in the list, by the other
    diagonal of the quadrilateral of its two triangles, and returns the new diagonal;
    an edge that is no diagonal, or has no two triangles, is left alone.
  \<^item> \<open>polyNeighbors\<close>: the two other sides of the first triangle, then those of the
    second.
  \<^item> \<open>polySubGraph g v1 v2\<close>: the polygon on the vertices walked from \<open>v1\<close> up to
    \<open>v2\<close> (cyclically), renumbered from 0 by \<open>polyVertexMapper\<close>, with the diagonals
    of \<open>g\<close> between these vertices; the divider \<open>(v1, v2)\<close> becomes a boundary edge.
  \<^item> \<open>polyEq\<close>: the same size and the same set of diagonals.
  \<^item> \<open>polySources\<close>: the non-empty sublists of the diagonals in which no two edges share
    a triangle. The spec only says that \<^verbatim>\<open>getSources\<close> yields candidate edge sets; the
    decision on the hexagons \<open>hexStart\<close> and \<open>hexEnd\<close> below runs through it, the
    decisions on the quadrilaterals and octagons do not.
  \<^item> \<open>polyOps\<close> has the assertions active, as the source file is written;
    \<open>polyOpsRelease\<close> is the same instance compiled with \<^verbatim>\<open>NDEBUG\<close>.
\<close>

record poly =
  psize :: nat
  diags :: "edge list"

definition polyEdge :: "vertex \<Rightarrow> vertex \<Rightarrow> edge" where
  "polyEdge a b = (if a \<le> b then (a, b) else (b, a))"

definition polyHasEdge :: "poly \<Rightarrow> edge \<Rightarrow> bool" where
  "polyHasEdge g e =
     (e \<in> set (diags g) \<or>
      (0 \<le> fst e \<and> snd e < int (psize g) \<and>
       (snd e = fst e + 1 \<or> (fst e = 0 \<and> snd e = int (psize g) - 1))))"

definition polyApexes :: "poly \<Rightarrow> edge \<Rightarrow> (vertex \<times> vertex) option" where
  "polyApexes g e =
     (let joined = (\<lambda>v. polyHasEdge g (polyEdge (fst e) v) \<and> polyHasEdge g (polyEdge v (snd e)))
      in case (filter joined [fst e + 1 .. snd e - 1],
               filter joined ([snd e + 1 .. int (psize g) - 1] @ [0 .. fst e - 1])) of
           (b # _, d # _) \<Rightarrow> Some (b, d)
         | _ \<Rightarrow> None)"

definition polyFlippable :: "poly \<Rightarrow> edge \<Rightarrow> bool" where
  "polyFlippable g e = (e \<in> set (diags g) \<and> polyApexes g e \<noteq> None)"

definition polyFlip :: "poly \<Rightarrow> edge \<Rightarrow> poly \<times> edge" where
  "polyFlip g e =
     (case (if e \<in> set (diags g) then polyApexes g e else None) of
        None \<Rightarrow> (g, e)
      | Some (b, d) \<Rightarrow>
          (g\<lparr>diags := map (\<lambda>x. if x = e then polyEdge b d else x) (diags g)\<rparr>, polyEdge b d))"

definition polyNeighbors :: "poly \<Rightarrow> edge \<Rightarrow> edge \<times> edge \<times> edge \<times> edge" where
  "polyNeighbors g e =
     (case polyApexes g e of
        None \<Rightarrow> (e, e, e, e)
      | Some (b, d) \<Rightarrow>
          (polyEdge (fst e) b, polyEdge b (snd e), polyEdge (snd e) d, polyEdge d (fst e)))"

definition polyShareTriangle :: "poly \<Rightarrow> edge \<Rightarrow> edge \<Rightarrow> bool" where
  "polyShareTriangle g e e2 =
     (e \<noteq> e2 \<and> (e2 \<in> set (neighborList (polyNeighbors g e))
                \<or> e \<in> set (neighborList (polyNeighbors g e2))))"

definition polyVertexFilter :: "vertex \<Rightarrow> vertex \<Rightarrow> vertex \<Rightarrow> bool" where
  "polyVertexFilter v1 v2 v = (if v1 \<le> v2 then v1 \<le> v \<and> v \<le> v2 else v1 \<le> v \<or> v \<le> v2)"

definition polyVertexMapper :: "poly \<Rightarrow> vertex \<Rightarrow> vertex \<Rightarrow> vertex \<Rightarrow> vertex" where
  "polyVertexMapper g v1 v2 v = (if v1 \<le> v then v - v1 else v - v1 + int (psize g))"

definition polySubGraph :: "poly \<Rightarrow> vertex \<Rightarrow> vertex \<Rightarrow> poly" where
  "polySubGraph g v1 v2 =
     \<lparr>psize = nat (if v1 \<le> v2 then v2 - v1 + 1 else v2 - v1 + 1 + int (psize g)),
      diags = map (\<lambda>e. polyEdge (polyVertexMapper g v1 v2 (fst e)) (polyVertexMapper g v1 v2 (snd e)))
                (filter (\<lambda>e. e \<noteq> polyEdge v1 v2 \<and> polyVertexFilter v1 v2 (fst e)
                             \<and> polyVertexFilter v1 v2 (snd e)) (diags g))\<rparr>"

definition polyEq :: "poly \<Rightarrow> poly \<Rightarrow> bool" where
  "polyEq g h = (psize g = psize h \<and> set (diags g) = set (diags h))"

definition polySources :: "poly \<Rightarrow> edge list list" where
  "polySources g =
     filter (\<lambda>s. s \<noteq> [] \<and> list_all (\<lambda>e. list_all (\<lambda>e2. \<not> polyShareTriangle g e e2) s) s)
       (subseqs (diags g))"

definition polyOps :: "poly graph_ops" where
  "polyOps = \<lparr>getEdges = diags, hasEdge = polyHasEdge, flip = polyFlip,
     getNeighbors = polyNeighbors, flippable = polyFlippable,
     shareTriangle = polyShareTriangle, getSize = psize, subGraph = polySubGraph,
     getVertexFilter = polyVertexFilter, getVertexMapper = polyVertexMapper,
     getSources = polySources, graphEq = polyEq, mkEdge = polyEdge, assertsActive = True\<rparr>"

definition polyOpsRelease :: "poly graph_ops" where
  "polyOpsRelease = polyOps\<lparr>assertsActive := False\<rparr>"

text \<open>
  A diagonal of an \<open>n\<close>-gon in the representation above, and a polygon of at least three
  vertices whose listed diagonals are all of this kind.
\<close>

definition polyProper :: "nat \<Rightarrow> edge \<Rightarrow> bool" where
  "polyProper n e =
     (0 \<le> fst e \<and> fst e + 2 \<le> snd e \<and> snd e < int n \<and> \<not> (fst e = 0 \<and> snd e = int n - 1))"

definition polyWf :: "poly \<Rightarrow> bool" where
  "polyWf g = (3 \<le> psize g \<and> list_all (polyProper (psize g)) (diags g))"

section \<open>Reachability by flips and concrete polygons\<close>

text \<open>
  The spec's notion of the flip distance being at most \<open>k\<close>: \<open>target\<close> is reached from
  \<open>g\<close> by at most \<open>k\<close> flips of diagonals.
\<close>

fun withinFlips :: "'g graph_ops \<Rightarrow> nat \<Rightarrow> 'g \<Rightarrow> 'g \<Rightarrow> bool" where
  "withinFlips ops 0 g target = graphEq ops g target"
| "withinFlips ops (Suc k) g target =
     (graphEq ops g target \<or>
      list_ex (\<lambda>e. withinFlips ops k (fst (flip ops g e)) target) (getEdges ops g))"


definition quadEnd :: poly where
  "quadEnd = \<lparr>psize = 4, diags = [(1, 3)]\<rparr>"

text \<open>
  Two octagons, their diagonals listed in lexicographic order, that share the diagonal
  \<open>(0, 4)\<close>, listed first, and differ by one flip: flipping \<open>(4, 6)\<close> in \<open>octStart\<close>
  gives \<open>(5, 7)\<close> and \<open>octEnd\<close>. Both sides of \<open>(0, 4)\<close> are pentagons.
\<close>

definition octStart :: poly where
  "octStart = \<lparr>psize = 8, diags = [(0, 4), (1, 3), (1, 4), (4, 6), (4, 7)]\<rparr>"

definition octEnd :: poly where
  "octEnd = \<lparr>psize = 8, diags = [(0, 4), (1, 3), (1, 4), (4, 7), (5, 7)]\<rparr>"

text \<open>
  Two octagons, their diagonals listed in lexicographic order, one flip apart: the first
  diagonal \<open>(0, 3)\<close> of \<open>octFlip\<close> flips to \<open>(1, 5)\<close>, which gives \<open>octFlipEnd\<close>. Both
  sides of \<open>(1, 5)\<close> are pentagons.
\<close>

definition octFlip :: poly where
  "octFlip = \<lparr>psize = 8, diags = [(0, 3), (0, 5), (1, 3), (3, 5), (5, 7)]\<rparr>"

definition octFlipEnd :: poly where
  "octFlipEnd = \<lparr>psize = 8, diags = [(0, 5), (1, 3), (1, 5), (3, 5), (5, 7)]\<rparr>"

text \<open>Two pentagons: the fan at vertex 0 and the fan at vertex 1.\<close>

definition pentFan0 :: poly where
  "pentFan0 = \<lparr>psize = 5, diags = [(0, 2), (0, 3)]\<rparr>"

definition pentFan1 :: poly where
  "pentFan1 = \<lparr>psize = 5, diags = [(1, 3), (1, 4)]\<rparr>"

text \<open>
  Two hexagons without a common diagonal and without a free flip: both debug
  assertions of \<^verbatim>\<open>search\<close> hold for them.
\<close>

definition hexStart :: poly where
  "hexStart = \<lparr>psize = 6, diags = [(1, 5), (2, 4), (2, 5)]\<rparr>"

definition hexEnd :: poly where
  "hexEnd = \<lparr>psize = 6, diags = [(0, 3), (0, 4), (1, 3)]\<rparr>"

text \<open>
  Two heptagons that share the diagonal \<open>(0, 5)\<close>: on the side of the vertices
  \<open>0..5\<close> they are \<open>hexStart\<close> and \<open>hexEnd\<close>, on the other side a triangle.
\<close>

definition heptStart :: poly where
  "heptStart = \<lparr>psize = 7, diags = [(0, 5), (1, 5), (2, 4), (2, 5)]\<rparr>"

definition heptEnd :: poly where
  "heptEnd = \<lparr>psize = 7, diags = [(0, 5), (0, 3), (0, 4), (1, 3)]\<rparr>"

text \<open>
  \<open>pickedFrom pairs cur\<close>: the list \<open>cur\<close> takes, in the order of \<open>pairs\<close>, at most one
  edge from each pair.
\<close>

fun pickedFrom :: "edge_pairs \<Rightarrow> edge list \<Rightarrow> bool" where
  "pickedFrom [] cur = (cur = [])"
| "pickedFrom (pair # pairs) cur =
     (pickedFrom pairs cur \<or>
      (case cur of [] \<Rightarrow> False
       | e # rest \<Rightarrow> (e = fst pair \<or> e = snd pair) \<and> pickedFrom pairs rest))"

section \<open>Uniform counting\<close>

text \<open>
  A procedure that threads the diagnostics counter counts uniformly, by at least \<open>lo\<close>,
  when it either stops in the same way for every initial counter, or returns the same
  result for every initial counter and adds the same amount \<open>d \<ge> lo\<close> to it.
\<close>

definition counting :: "int \<Rightarrow> (int \<Rightarrow> ('a \<times> int) run) \<Rightarrow> bool" where
  "counting lo f \<longleftrightarrow>
     (\<exists>s. \<forall>bc. f bc = Inl s) \<or> (\<exists>x d. lo \<le> d \<and> (\<forall>bc. f bc = Inr (x, bc + d)))"

text \<open>The result of a call without the counter.\<close>

definition verdict :: "outcome \<Rightarrow> bool run" where
  "verdict r = map_sum id fst r"

text \<open>
  The enumeration of candidate sets restores its state: for every \<^verbatim>\<open>cur\<close> and
  \<^verbatim>\<open>forbid\<close> it either stops, or returns with \<^verbatim>\<open>cur\<close> and \<^verbatim>\<open>forbid\<close> as they
  were and the counter advanced uniformly.
\<close>

definition restoring :: "int \<Rightarrow> (enum_state \<Rightarrow> (bool \<times> enum_state) run) \<Rightarrow> bool" where
  "restoring lo f \<longleftrightarrow>
     (\<forall>cur forbid.
        (\<exists>s. \<forall>bc. f (cur, forbid, bc) = Inl s) \<or>
        (\<exists>b d. lo \<le> d \<and> (\<forall>bc. f (cur, forbid, bc) = Inr (b, (cur, forbid, bc + d)))))"

section \<open>Properties of the conflict tracker\<close>

lemma fold_add_mset_eq: "fold (\<lambda>x fb. add_mset x fb) xs m = m + mset xs"
  by (induction xs arbitrary: m) simp_all

lemma eraseOne_diff: "eraseOne s e = s - {#e#}"
  by (simp add: eraseOne_def)

lemma fold_eraseOne_eq: "fold (\<lambda>x fb. eraseOne fb x) xs m = m - mset xs"
  by (induction xs arbitrary: m) (simp_all add: eraseOne_diff)

lemma removeNeighbors_after_addNeighbors:
  "removeNeighborsFromForbid ops e g (addNeighborsToForbid ops e g m) = m"
proof -
  let ?ns = "neighborList (getNeighbors ops g e)"
  have added: "addNeighborsToForbid ops e g m = add_mset e m + mset ?ns"
    by (simp add: addNeighborsToForbid_def fold_add_mset_eq)
  have "eraseOne (add_mset e m + mset ?ns) e = m + mset ?ns"
    by (simp add: eraseOne_def)
  then have "removeNeighborsFromForbid ops e g (add_mset e m + mset ?ns) = m + mset ?ns - mset ?ns"
    by (simp only: removeNeighborsFromForbid_def fold_eraseOne_eq)
  with added show ?thesis by simp
qed

text \<open>
  C10: for every triangulation \<open>g\<close>, edge \<open>e\<close> and conflict multiset \<open>m\<close>,
  \<^verbatim>\<open>addNeighborsToForbid(e, g, m)\<close> followed by \<^verbatim>\<open>removeNeighborsFromForbid(e, g, m)\<close>
  leaves \<open>m\<close> equal to its original contents, element counts included. The statement
  holds for every implementation of the triangulation interface.
\<close>

theorem forbid_add_then_remove_restores:
  "removeNeighborsFromForbid ops e g (addNeighborsToForbid ops e g m) = m"
  by (rule removeNeighbors_after_addNeighbors)

section \<open>The budget-split entry without budget\<close>

text \<open>
  C9: for every call \<^verbatim>\<open>splitAndSearch(g, divider, k, sources)\<close> with \<open>k \<le> 0\<close> the
  result is true exactly when \<open>g\<close> equals the target and \<open>k = 0\<close>. The call returns
  with any fuel, a single unit included, so it makes no recursive call, and the result does not mention
  \<open>subGraph\<close>: nothing is decomposed. The diagnostics counter is unchanged.
\<close>

theorem splitAndSearch_nonpositive_budget:
  "k \<le> 0 \<Longrightarrow>
   splitAndSearch ops (Suc fuel) target g divider k sources bc
     = Inr (graphEq ops g target \<and> k = 0, bc)"
  by (simp add: splitAndSearch.simps)

theorem splitAndSearch_nonpositive_budget_witness:
  "(0::int) \<le> 0 \<and>
   splitAndSearch polyOps (Suc 0) quadEnd quadEnd (1, 3) 0 [] 7 = Inr (True, 7)"
  using splitAndSearch_nonpositive_budget
    [where k = 0 and fuel = 0 and ops = polyOps and target = quadEnd and g = quadEnd
       and divider = "(1, 3)" and sources = "[]" and bc = 7]
  by (simp add: polyOps_def polyEq_def)

section \<open>The decision on concrete polygons\<close>

text \<open>
  C1, evaluated on the octagons \<open>octStart\<close> and \<open>octEnd\<close>: one flip, of \<open>(4, 6)\<close>, turns
  \<open>octStart\<close> into \<open>octEnd\<close>, yet \<^verbatim>\<open>flipDistanceDecision(1)\<close> and
  \<^verbatim>\<open>flipDistanceDecision(2)\<close> return false, with assertions active or not. The first
  edge \<open>(0, 4)\<close> is shared, so \<^verbatim>\<open>splitAndSearch\<close> is entered with the whole budget; its
  loop starts the left budget at \<open>leftSize - 3 = 2\<close>, the number of diagonals of the
  left pentagon, although the left pentagons are equal.
\<close>

theorem flipDistanceDecision_rejects_one_flip:
  "withinFlips polyOps 1 octStart octEnd
   \<and> flipDistanceDecision polyOps 2 octStart octEnd 1 0 = Inr (False, 0)
   \<and> flipDistanceDecision polyOps 4 octStart octEnd 2 0 = Inr (False, 0)
   \<and> flipDistanceDecision polyOpsRelease 2 octStart octEnd 1 0 = Inr (False, 0)
   \<and> flipDistanceDecision polyOpsRelease 4 octStart octEnd 2 0 = Inr (False, 0)"
  by code_simp

text \<open>
  C2, evaluated on the octagons \<open>octFlip\<close> and \<open>octFlipEnd\<close>, one flip apart:
  \<^verbatim>\<open>flipDistanceDecision(1)\<close> returns true and \<^verbatim>\<open>flipDistanceDecision(2)\<close> returns
  false, with assertions active or not. After the free flip of \<open>(0, 3)\<close> the graph equals
  the target; with the budget 1 left, \<^verbatim>\<open>splitAndSearch\<close> starts the left budget at
  \<open>leftSize - 3 = 2\<close> and its loop body never runs.
\<close>

theorem flipDistanceDecision_not_monotone:
  "flipDistanceDecision polyOps 2 octFlip octFlipEnd 1 0 = Inr (True, 0)
   \<and> flipDistanceDecision polyOps 2 octFlip octFlipEnd 2 0 = Inr (False, 0)
   \<and> flipDistanceDecision polyOpsRelease 2 octFlip octFlipEnd 1 0 = Inr (True, 0)
   \<and> flipDistanceDecision polyOpsRelease 2 octFlip octFlipEnd 2 0 = Inr (False, 0)"
  by code_simp

section \<open>The lower-bound test of the flat search\<close>

text \<open>
  C3, evaluated on the hexagon \<open>hexStart\<close> with the target \<open>hexEnd\<close>, the source edge
  \<open>(2, 4)\<close> and the budget 0. Both assertions hold and \<open>(6 - 3) - 1 > 0\<close>, but the test
  of the source computes \<open>0 - 1\<close> as a \<^verbatim>\<open>size_t\<close>, which wraps to \<open>2^64 - 1\<close>, and does
  not fire. The call goes on to the edge loop, flips the source edge and runs the
  free-flip propagation before it returns false on the negative budget: with one unit
  of fuel it has not returned, with eight it has, with assertions active or not.
\<close>

theorem search_lower_bound_wraps:
  "assertNonTrivial polyOps hexStart hexEnd
   \<and> isIndependentSet polyOps [(2, 4)] hexStart
   \<and> (int (getSize polyOps hexStart) - 3) - int (length [(2, 4) :: edge]) > 0
   \<and> lowerBoundPrune (getSize polyOps hexStart) 0 (length [(2, 4) :: edge]) = False
   \<and> search polyOps 1 hexEnd [(2, 4)] hexStart 0 0 = Inl OutOfFuel
   \<and> search polyOps 8 hexEnd [(2, 4)] hexStart 0 0 = Inr (False, 1)
   \<and> search polyOpsRelease 1 hexEnd [(2, 4)] hexStart 0 0 = Inl OutOfFuel
   \<and> search polyOpsRelease 8 hexEnd [(2, 4)] hexStart 0 0 = Inr (False, 1)"
  by code_simp

section \<open>The counter is threaded uniformly\<close>

lemma counting_stop: "counting lo (\<lambda>bc. Inl s)"
  by (auto simp: counting_def)

lemma counting_Inr: "lo \<le> d \<Longrightarrow> counting lo (\<lambda>bc. Inr (x, bc + d))"
  by (auto simp: counting_def)

lemma counting_return: "lo \<le> 0 \<Longrightarrow> counting lo (\<lambda>bc. Inr (x, bc))"
  using counting_Inr [of lo 0 x] by simp

lemma counting_cases:
  assumes "counting lo f"
  obtains (stops) s where "\<And>bc. f bc = Inl s"
  | (returns) x d where "lo \<le> d" "\<And>bc. f bc = Inr (x, bc + d)"
  using assms unfolding counting_def by blast

lemma counting_weaken: "counting lo f \<Longrightarrow> lo' \<le> lo \<Longrightarrow> counting lo' f"
  unfolding counting_def by (meson order_trans)

lemma counting_shift: "counting lo f \<Longrightarrow> counting (lo + 1) (\<lambda>bc. f (bc + 1))"
proof (erule counting_cases)
  fix s
    assume "\<And>bc. f bc = Inl s"
  then show ?thesis by (simp add: counting_def)
next
  fix x d
  assume "lo \<le> d" and "\<And>bc. f bc = Inr (x, bc + d)"
  then have "lo + 1 \<le> d + 1" and "\<forall>bc. f (bc + 1) = Inr (x, bc + (d + 1))"
    by (simp_all add: add.assoc add.commute)
  then show ?thesis unfolding counting_def by blast
qed

text \<open>Sequencing: a uniformly counting step followed by uniformly counting
  continuations.\<close>

lemma counting_bind:
  assumes f: "counting lo f"
    and g: "\<And>x. counting 0 (g x)"
  shows "counting lo (\<lambda>bc. case f bc of Inl s \<Rightarrow> Inl s | Inr (x, bc') \<Rightarrow> g x bc')"
proof (rule counting_cases [OF f])
  fix s
    assume "\<And>bc. f bc = Inl s"
  then show ?thesis by (simp add: counting_def)
next
  fix x d
  assume d: "lo \<le> d" and fx: "\<And>bc. f bc = Inr (x, bc + d)"
  show ?thesis
  proof (rule counting_cases [OF g [of x]])
    fix s
    assume "\<And>bc. g x bc = Inl s"
    then show ?thesis using fx by (simp add: counting_def)
  next
    fix y d'
    assume d': "0 \<le> d'" and gy: "\<And>bc. g x bc = Inr (y, bc + d')"
    have "\<forall>bc. (case f bc of Inl s \<Rightarrow> Inl s | Inr (x, bc') \<Rightarrow> g x bc') = Inr (y, bc + (d + d'))"
      using fx gy by (simp add: add.assoc)
    moreover have "lo \<le> d + d'" using d d' by simp
    ultimately show ?thesis unfolding counting_def by blast
  qed
qed

lemma trySources_counting:
  assumes "\<And>source. counting 0 (decide source)"
  shows "counting 0 (trySources decide sources)"
proof (induction sources)
  case Nil
  have "trySources decide [] = (\<lambda>bc. Inr (False, bc))" by (rule ext) simp
  then show ?case by (simp add: counting_return)
next
  case (Cons source sources)
  have eq: "trySources decide (source # sources) =
      (\<lambda>bc. case decide source bc of Inl s \<Rightarrow> Inl s
            | Inr (b, bc') \<Rightarrow> (if b then (\<lambda>c. Inr (True, c)) else trySources decide sources) bc')"
    by (rule ext) (simp split: sum.splits bool.splits prod.splits)
  have "\<And>b. counting 0 (if b then (\<lambda>c. Inr (True, c)) else trySources decide sources)"
    using Cons.IH by (simp add: counting_return)
  from counting_bind [OF assms [of source], of "\<lambda>b. if b then (\<lambda>c. Inr (True, c)) else trySources decide sources", OF this]
  show ?case unfolding eq .
qed

lemma budgetLoop_counting:
  assumes srch: "\<And>i. counting 0 (srch i)"
  shows "(\<exists>s. \<forall>bc. budgetLoop srch i k bc = Inl s) \<or>
         (\<exists>i' k' d. 0 \<le> d \<and> (\<forall>bc. budgetLoop srch i k bc = Inr (i', k', bc + d)))"
proof (induction "nat (k + 1 - i)" arbitrary: i)
  case 0
  then have "\<forall>bc. budgetLoop srch i k bc = Inr (i, k, bc + 0)"
    by (subst budgetLoop.simps) simp
  then show ?case by (metis order_refl)
next
  case (Suc n)
  then have ik: "i \<le> k" and n: "n = nat (k + 1 - (i + 1))" by linarith+
  show ?case
  proof (rule counting_cases [OF srch [of i]])
    fix s
    assume "\<And>bc. srch i bc = Inl s"
    then have "\<forall>bc. budgetLoop srch i k bc = Inl s"
      using ik by (subst budgetLoop.simps) simp
    then show ?thesis by blast
  next
    fix b d
    assume d: "0 \<le> d" and run: "\<And>bc. srch i bc = Inr (b, bc + d)"
    show ?thesis
    proof (cases b)
      case True
      then have "\<forall>bc. budgetLoop srch i k bc = Inr (i, k - i, bc + d)"
        using ik run by (subst budgetLoop.simps) simp
      then show ?thesis using d by blast
    next
      case False
      then have step: "\<And>bc. budgetLoop srch i k bc = budgetLoop srch (i + 1) k (bc + d)"
        using ik run by (subst budgetLoop.simps) simp
      from Suc.hyps(1) [OF n] show ?thesis
      proof
        assume "\<exists>s. \<forall>bc. budgetLoop srch (i + 1) k bc = Inl s"
        then obtain s where "\<And>bc. budgetLoop srch (i + 1) k bc = Inl s" by blast
        then have "\<forall>bc. budgetLoop srch i k bc = Inl s" using step by simp
        then show ?thesis by blast
      next
        assume "\<exists>i' k' d'. 0 \<le> d' \<and>
                  (\<forall>bc. budgetLoop srch (i + 1) k bc = Inr (i', k', bc + d'))"
        then obtain i' k' d' where d': "0 \<le> d'"
          and rest: "\<And>bc. budgetLoop srch (i + 1) k bc = Inr (i', k', bc + d')"
          by blast
        have "\<forall>bc. budgetLoop srch i k bc = Inr (i', k', bc + (d + d'))"
          using step rest by (simp add: add.assoc)
        moreover have "0 \<le> d + d'" using d d' by simp
        ultimately show ?thesis by blast
      qed
    qed
  qed
qed

lemma allocateBudgets_counting:
  assumes srch: "\<And>p i. counting 0 (srch p i)"
  shows "counting 0 (allocateBudgets srch ps k)"
proof (induction ps arbitrary: k)
  case Nil
  have "allocateBudgets srch [] k = (\<lambda>bc. Inr (k \<ge> 0, bc))" by (rule ext) simp
  then show ?case by (simp add: counting_return)
next
  case (Cons p ps)
  from budgetLoop_counting [of "srch p" 0 k, OF srch] show ?case
  proof
    assume "\<exists>s. \<forall>bc. budgetLoop (srch p) 0 k bc = Inl s"
    then obtain s where "\<And>bc. budgetLoop (srch p) 0 k bc = Inl s" by blast
    then have "\<forall>bc. allocateBudgets srch (p # ps) k bc = Inl s" by simp
    then show ?thesis unfolding counting_def by blast
  next
    assume "\<exists>i' k' d. 0 \<le> d \<and> (\<forall>bc. budgetLoop (srch p) 0 k bc = Inr (i', k', bc + d))"
    then obtain i' k' d where d: "0 \<le> d"
      and loop: "\<And>bc. budgetLoop (srch p) 0 k bc = Inr (i', k', bc + d)"
      by blast
    show ?thesis
    proof (cases "i' = k' + 1")
      case True
      then have "\<forall>bc. allocateBudgets srch (p # ps) k bc = Inr (False, bc + d)"
        using loop by simp
      then show ?thesis using d unfolding counting_def by blast
    next
      case False
      then have step: "\<And>bc. allocateBudgets srch (p # ps) k bc = allocateBudgets srch ps k' (bc + d)"
        using loop by simp
      show ?thesis
      proof (rule counting_cases [OF Cons.IH [of k']])
        fix s
        assume "\<And>bc. allocateBudgets srch ps k' bc = Inl s"
        then show ?thesis using step by (simp add: counting_def)
      next
        fix x d'
        assume d': "0 \<le> d'" and rest: "\<And>bc. allocateBudgets srch ps k' bc = Inr (x, bc + d')"
        have "\<forall>bc. allocateBudgets srch (p # ps) k bc = Inr (x, bc + (d + d'))"
          using step rest by (simp add: add.assoc)
        moreover have "0 \<le> d + d'" using d d' by simp
        ultimately show ?thesis unfolding counting_def by blast
      qed
    qed
  qed
qed

lemma splitLoop_counting:
  assumes left: "\<And>i. counting 0 (decideLeft i)"
    and right: "\<And>i. counting 0 (decideRight i)"
  shows "counting 0 (splitLoop decideLeft decideRight i k)"
proof (induction "Suc (nat k) - i" arbitrary: i)
  case 0
  then have "\<forall>bc. splitLoop decideLeft decideRight i k bc = Inr (False, bc + 0)"
    by (subst splitLoop.simps) simp
  then show ?case unfolding counting_def by (metis order_refl)
next
  case (Suc n)
  then have ik: "i \<le> nat k" and n: "n = Suc (nat k) - (i + 1)" by linarith+
  show ?case
  proof (rule counting_cases [OF left [of "word_of_nat i"]])
    fix s
    assume "\<And>bc. decideLeft (word_of_nat i) bc = Inl s"
    then have "\<forall>bc. splitLoop decideLeft decideRight i k bc = Inl s"
      using ik by (subst splitLoop.simps) simp
    then show ?thesis by (simp add: counting_def)
  next
    fix b d
    assume d: "0 \<le> d" and run: "\<And>bc. decideLeft (word_of_nat i) bc = Inr (b, bc + d)"
    have rest: "counting 0 (if b then decideRight (word_of_int (k - int i))
                            else splitLoop decideLeft decideRight (i + 1) k)"
      using right Suc.hyps(1) [OF n] by simp
    have step: "\<And>bc. splitLoop decideLeft decideRight i k bc =
        (if b then decideRight (word_of_int (k - int i))
         else splitLoop decideLeft decideRight (i + 1) k) (bc + d)"
      using ik run by (subst splitLoop.simps) simp
    show ?thesis
    proof (rule counting_cases [OF rest])
      fix s
    assume "\<And>bc. (if b then decideRight (word_of_int (k - int i))
                     else splitLoop decideLeft decideRight (i + 1) k) bc = Inl s"
      then show ?thesis using step by (simp add: counting_def)
    next
      fix x d'
      assume d': "0 \<le> d'"
        and r: "\<And>bc. (if b then decideRight (word_of_int (k - int i))
                       else splitLoop decideLeft decideRight (i + 1) k) bc = Inr (x, bc + d')"
      have "\<forall>bc. splitLoop decideLeft decideRight i k bc = Inr (x, bc + (d + d'))"
        using step r by (simp add: add.assoc)
      moreover have "0 \<le> d + d'" using d d' by simp
      ultimately show ?thesis unfolding counting_def by blast
    qed
  qed
qed

lemma restoring_cases:
  assumes "restoring lo f"
  obtains (stops) s where "\<And>bc. f (cur, forbid, bc) = Inl s"
  | (returns) b d where "lo \<le> d" "\<And>bc. f (cur, forbid, bc) = Inr (b, (cur, forbid, bc + d))"
  using assms unfolding restoring_def by blast

lemma pickEdge_restoring:
  assumes gen: "restoring lo generate" and lo: "0 \<le> lo"
  shows "restoring 0 (pickEdge ops g generate e)"
  unfolding restoring_def
proof (intro allI)
  fix cur forbid
  let ?P = "(\<exists>s. \<forall>bc. pickEdge ops g generate e (cur, forbid, bc) = Inl s) \<or>
            (\<exists>b d. 0 \<le> d \<and>
               (\<forall>bc. pickEdge ops g generate e (cur, forbid, bc) = Inr (b, (cur, forbid, bc + d))))"
  show ?P
  proof (cases "\<not> flippable ops g e \<or> count forbid e > 0")
    case True
    then have "\<forall>bc. pickEdge ops g generate e (cur, forbid, bc) = Inr (False, (cur, forbid, bc + 0))"
      by (simp add: pickEdge_def)
    then show ?thesis by (metis order_refl)
  next
    case False
    show ?thesis
    proof (rule restoring_cases [OF gen, of "cur @ [e]" "addNeighborsToForbid ops e g forbid"])
      fix s
    assume "\<And>bc. generate (cur @ [e], addNeighborsToForbid ops e g forbid, bc) = Inl s"
      then have "\<forall>bc. pickEdge ops g generate e (cur, forbid, bc) = Inl s"
        using False by (simp add: pickEdge_def)
      then show ?thesis by blast
    next
      fix b d
      assume d: "lo \<le> d"
        and run: "\<And>bc. generate (cur @ [e], addNeighborsToForbid ops e g forbid, bc)
                    = Inr (b, (cur @ [e], addNeighborsToForbid ops e g forbid, bc + d))"
      have "\<forall>bc. pickEdge ops g generate e (cur, forbid, bc) = Inr (b, (cur, forbid, bc + d))"
        using False run by (simp add: pickEdge_def removeNeighbors_after_addNeighbors)
      moreover have "0 \<le> d" using d lo by simp
      ultimately show ?thesis by blast
    qed
  qed
qed

lemma generateNext_restoring:
  assumes srch: "\<And>cur. counting lo (srch cur)" and lo: "0 \<le> lo"
  shows "restoring lo (generateNext ops g srch pairs)"
proof (induction pairs)
  case Nil
  show ?case unfolding restoring_def
  proof (intro allI)
    fix cur forbid
    show "(\<exists>s. \<forall>bc. generateNext ops g srch [] (cur, forbid, bc) = Inl s) \<or>
          (\<exists>b d. lo \<le> d \<and>
             (\<forall>bc. generateNext ops g srch [] (cur, forbid, bc) = Inr (b, (cur, forbid, bc + d))))"
    proof (rule counting_cases [OF srch [of cur]])
      fix s
    assume "\<And>bc. srch cur bc = Inl s"
      then show ?thesis by simp
    next
      fix b d
      assume "lo \<le> d" and "\<And>bc. srch cur bc = Inr (b, bc + d)"
      then show ?thesis by auto
    qed
  qed
next
  case (Cons pair pairs)
  let ?gen = "generateNext ops g srch pairs"
  have pick: "\<And>e. restoring 0 (pickEdge ops g (\<lambda>s. ?gen s) e)"
    using pickEdge_restoring [OF _ lo, of ?gen] Cons.IH by simp
  show ?case unfolding restoring_def
  proof (intro allI)
    fix cur forbid
    let ?goal = "(\<exists>s. \<forall>bc. generateNext ops g srch (pair # pairs) (cur, forbid, bc) = Inl s) \<or>
          (\<exists>b d. lo \<le> d \<and>
             (\<forall>bc. generateNext ops g srch (pair # pairs) (cur, forbid, bc)
                     = Inr (b, (cur, forbid, bc + d))))"
    show ?goal
    proof (rule restoring_cases [OF Cons.IH, of cur forbid])
      fix s
    assume "\<And>bc. ?gen (cur, forbid, bc) = Inl s"
      then show ?goal by simp
    next
      fix b0 d0
      assume d0: "lo \<le> d0"
        and skip: "\<And>bc. ?gen (cur, forbid, bc) = Inr (b0, (cur, forbid, bc + d0))"
      show ?goal
      proof (cases b0)
        case True
        then have "\<forall>bc. generateNext ops g srch (pair # pairs) (cur, forbid, bc)
                     = Inr (True, (cur, forbid, bc + d0))"
          using skip by simp
        then show ?goal using d0 by blast
      next
        case b0: False
        show ?goal
        proof (rule restoring_cases [OF pick [of "fst pair"], of cur forbid])
          fix s
        assume "\<And>bc. pickEdge ops g (\<lambda>s. ?gen s) (fst pair) (cur, forbid, bc) = Inl s"
          then show ?goal using skip b0 by simp
        next
          fix b1 d1
          assume d1: "0 \<le> d1"
            and first: "\<And>bc. pickEdge ops g (\<lambda>s. ?gen s) (fst pair) (cur, forbid, bc)
                         = Inr (b1, (cur, forbid, bc + d1))"
          show ?goal
          proof (cases b1)
            case True
            then have "\<forall>bc. generateNext ops g srch (pair # pairs) (cur, forbid, bc)
                         = Inr (True, (cur, forbid, bc + (d0 + d1)))"
              using skip b0 first by (simp add: add.assoc)
            moreover have "lo \<le> d0 + d1" using d0 d1 by simp
            ultimately show ?goal by blast
          next
            case b1: False
            show ?goal
            proof (rule restoring_cases [OF pick [of "snd pair"], of cur forbid])
              fix s
        assume "\<And>bc. pickEdge ops g (\<lambda>s. ?gen s) (snd pair) (cur, forbid, bc) = Inl s"
              then show ?goal using skip b0 first b1 by simp
            next
              fix b2 d2
              assume d2: "0 \<le> d2"
                and second: "\<And>bc. pickEdge ops g (\<lambda>s. ?gen s) (snd pair) (cur, forbid, bc)
                              = Inr (b2, (cur, forbid, bc + d2))"
              have "\<forall>bc. generateNext ops g srch (pair # pairs) (cur, forbid, bc)
                      = Inr (b2, (cur, forbid, bc + (d0 + d1 + d2)))"
                using skip b0 first b1 second by (cases b2) (simp_all add: add.assoc)
              moreover have "lo \<le> d0 + d1 + d2" using d0 d1 d2 by simp
              ultimately show ?goal by blast
            qed
          qed
        qed
      qed
    qed
  qed
qed

lemma procedures_counting:
  "(\<forall>start target k. counting 0 (flipDistanceDecision ops fuel start target k))
   \<and> (\<forall>target sources g k. counting 1 (search ops fuel target sources g k))
   \<and> (\<forall>target sources g k. counting 1 (searchPairs ops fuel target sources g k))
   \<and> (\<forall>target g divider k sources.
         counting 0 (splitAndSearch ops fuel target g divider k sources))"
proof (induction fuel)
  case 0
  have "\<And>start target k. flipDistanceDecision ops 0 start target k = (\<lambda>bc. Inl OutOfFuel)"
    and "\<And>target sources g k. search ops 0 target sources g k = (\<lambda>bc. Inl OutOfFuel)"
    and "\<And>target sources g k. searchPairs ops 0 target sources g k = (\<lambda>bc. Inl OutOfFuel)"
    and "\<And>target g divider k sources.
           splitAndSearch ops 0 target g divider k sources = (\<lambda>bc. Inl OutOfFuel)"
    by (rule ext, simp add: flipDistanceDecision.simps search.simps searchPairs.simps
          splitAndSearch.simps)+
  then show ?case by (simp add: counting_stop)
next
  case (Suc fuel)
  then have decide: "\<And>start target k. counting 0 (flipDistanceDecision ops fuel start target k)"
    and flat: "\<And>target sources g k. counting 1 (search ops fuel target sources g k)"
    and pairs: "\<And>target sources g k. counting 1 (searchPairs ops fuel target sources g k)"
    and split: "\<And>target g divider k sources.
                  counting 0 (splitAndSearch ops fuel target g divider k sources)"
    by blast+
  have flat0: "\<And>target sources g k. counting 0 (search ops fuel target sources g k)"
    using flat by (rule counting_weaken) simp
  have pairs0: "\<And>target sources g k. counting 0 (searchPairs ops fuel target sources g k)"
    using pairs by (rule counting_weaken) simp
  have c1: "counting 0 (flipDistanceDecision ops (Suc fuel) start target k)" for start target k
  proof -
    have eq: "flipDistanceDecision ops (Suc fuel) start target k =
      (if graphEq ops start target then (\<lambda>bc. Inr (True, bc))
       else case scanShared ops start target (getEdges ops start) of
         Some (g, divider, used) \<Rightarrow> splitAndSearch ops fuel target g divider (sint k - used) []
       | None \<Rightarrow> trySources (\<lambda>source. search ops fuel target source start (sint k))
                   (getSources ops start))"
      by (rule ext) (simp add: flipDistanceDecision.simps split: option.splits prod.splits)
    show ?thesis unfolding eq
      by (simp add: counting_return split trySources_counting flat0
          split: option.splits prod.splits)
  qed
  have c2: "counting 1 (search ops (Suc fuel) target sources g k)" for target sources g k
  proof -
    let ?body = "if assertsActive ops \<and> \<not> assertNonTrivial ops g target
         then (\<lambda>bc. Inl AssertionFailed)
       else if assertsActive ops \<and> \<not> isIndependentSet ops sources g
         then (\<lambda>bc. Inl AssertionFailed)
       else if graphEq ops g target \<and> k \<ge> 0 then (\<lambda>bc. Inr (True, bc))
       else if lowerBoundPrune (getSize ops g) k (length sources) then (\<lambda>bc. Inr (False, bc))
       else if sources = [] then (\<lambda>bc. Inr (False, bc))
       else
         (case scanFree ops g target (getEdges ops g) of
            Inr (e, result, g') \<Rightarrow>
              if count_list sources e > 0
              then splitAndSearch ops fuel target g' result (k - 1) sources
              else (\<lambda>bc. Inr (False, bc))
          | Inl g0 \<Rightarrow>
              (case flipSources ops sources g0 [] of
                 Inl s \<Rightarrow> (\<lambda>bc. Inl s)
               | Inr (g1, nxt) \<Rightarrow>
                 (case performFreeFlips ops fuel (g1, target) nxt (k - int (length sources)) of
                    Inl s \<Rightarrow> (\<lambda>bc. Inl s)
                  | Inr (result, k') \<Rightarrow>
                      if k' < 0 then (\<lambda>bc. Inr (False, bc))
                      else allocateBudgets
                             (\<lambda>pair i c. searchPairs ops fuel (snd (fst pair)) (snd pair)
                                            (fst (fst pair)) i c)
                             result k')))"
    have eq: "search ops (Suc fuel) target sources g k = (\<lambda>bc. ?body (bc + 1))"
      by (rule ext) (auto simp: search.simps split: prod.splits sum.splits)
    have "counting 0 ?body"
      by (simp add: counting_return counting_stop split allocateBudgets_counting pairs0
          split: prod.splits sum.splits)
    from counting_shift [OF this] show ?thesis unfolding eq by simp
  qed
  have c3: "counting 1 (searchPairs ops (Suc fuel) target sources g k)" for target sources g k
  proof (cases "assertsActive ops \<and> \<not> assertNonTrivial ops g target")
    case True
    then have "searchPairs ops (Suc fuel) target sources g k = (\<lambda>bc. Inl AssertionFailed)"
      by (intro ext) (simp add: searchPairs.simps)
    then show ?thesis by (simp add: counting_stop)
  next
    case False
    show ?thesis
    proof (rule restoring_cases
        [OF generateNext_restoring [of 1 "\<lambda>cur. search ops fuel target cur g k" ops g sources],
         of "[]" "{#}"])
      show "counting 1 (search ops fuel target cur g k)" for cur by (rule flat)
      show "(0::int) \<le> 1" by simp
    next
      fix s
      assume "\<And>bc. generateNext ops g (\<lambda>cur. search ops fuel target cur g k) sources
                ([], {#}, bc) = Inl s"
      then have "\<forall>bc. searchPairs ops (Suc fuel) target sources g k bc = Inl s"
        using False by (auto simp: searchPairs.simps)
      then show ?thesis unfolding counting_def by blast
    next
      fix b d
      assume "1 \<le> d"
        and "\<And>bc. generateNext ops g (\<lambda>cur. search ops fuel target cur g k) sources
               ([], {#}, bc) = Inr (b, ([], {#}, bc + d))"
      then have "1 \<le> d
          \<and> (\<forall>bc. searchPairs ops (Suc fuel) target sources g k bc = Inr (b, bc + d))"
        using False by (auto simp: searchPairs.simps)
      then show ?thesis unfolding counting_def by blast
    qed
  qed
  have c4: "counting 0 (splitAndSearch ops (Suc fuel) target g divider k sources)"
    for target g divider k sources
  proof -
    have eq: "splitAndSearch ops (Suc fuel) target g divider k sources =
      (if k \<le> 0 then (\<lambda>bc. Inr (graphEq ops g target \<and> k = 0, bc))
       else splitLoop
              (flipDistanceDecision ops fuel (subGraph ops g (fst divider) (snd divider))
                 (subGraph ops target (fst divider) (snd divider)))
              (flipDistanceDecision ops fuel (subGraph ops g (snd divider) (fst divider))
                 (subGraph ops target (snd divider) (fst divider)))
              (unat (word_of_nat (getSize ops (subGraph ops g (fst divider) (snd divider))) - 3
                      :: 64 word)) k)"
      by (rule ext) (simp add: splitAndSearch.simps Let_def)
    show ?thesis unfolding eq
      by (simp add: counting_return splitLoop_counting decide)
  qed
  from c1 c2 c3 c4 show ?case by blast
qed

section \<open>The diagnostics counter\<close>



lemma counting_verdict:
  "counting lo f \<Longrightarrow> verdict (f bc) = verdict (f 0)"
  unfolding counting_def verdict_def by auto






section \<open>The budget split\<close>

lemma splitLoop_first_feasible:
  assumes left: "\<And>i. counting 0 (decideLeft i)"
    and right: "\<And>i. counting 0 (decideRight i)"
    and "i \<le> i0" and "i0 \<le> nat k"
    and no: "\<And>j. i \<le> j \<Longrightarrow> j < i0 \<Longrightarrow> verdict (decideLeft (word_of_nat j) 0) = Inr False"
    and yes: "verdict (decideLeft (word_of_nat i0) 0) = Inr True"
  shows "verdict (splitLoop decideLeft decideRight i k bc)
           = verdict (decideRight (word_of_int (k - int i0)) 0)"
  using assms(3,5)
proof (induction "i0 - i" arbitrary: i bc)
  case 0
  then have i: "i = i0" by simp
  from yes counting_verdict [OF left, of "word_of_nat i0" bc]
  obtain c where "decideLeft (word_of_nat i0) bc = Inr (True, c)"
    by (cases "decideLeft (word_of_nat i0) bc") (auto simp: verdict_def)
  then have "splitLoop decideLeft decideRight i k bc = decideRight (word_of_int (k - int i0)) c"
    using i assms(4) by (subst splitLoop.simps) simp
  then show ?case by (simp add: counting_verdict [OF right, of _ c])
next
  case (Suc n)
  then have lt: "i < i0" by simp
  from Suc.prems(2) [of i] lt counting_verdict [OF left, of "word_of_nat i" bc]
  obtain c where "decideLeft (word_of_nat i) bc = Inr (False, c)"
    by (cases "decideLeft (word_of_nat i) bc") (auto simp: verdict_def)
  then have "splitLoop decideLeft decideRight i k bc = splitLoop decideLeft decideRight (i + 1) k c"
    using lt assms(4) by (subst splitLoop.simps) simp
  moreover have "verdict (splitLoop decideLeft decideRight (i + 1) k c)
                   = verdict (decideRight (word_of_int (k - int i0)) 0)"
    using Suc.hyps(2) lt Suc.prems(2) by (intro Suc.hyps(1)) simp_all
  ultimately show ?case by simp
qed

lemma splitLoop_exhausted:
  assumes left: "\<And>i. counting 0 (decideLeft i)"
    and no: "\<And>j. i \<le> j \<Longrightarrow> j \<le> nat k \<Longrightarrow> verdict (decideLeft (word_of_nat j) 0) = Inr False"
  shows "verdict (splitLoop decideLeft decideRight i k bc) = Inr False"
  using no
proof (induction "Suc (nat k) - i" arbitrary: i bc)
  case 0
  then have "\<not> i \<le> nat k" by simp
  then show ?case by (subst splitLoop.simps) (simp add: verdict_def)
next
  case (Suc n)
  then have le: "i \<le> nat k" by simp
  from Suc.prems [of i] le counting_verdict [OF left, of "word_of_nat i" bc]
  obtain c where "decideLeft (word_of_nat i) bc = Inr (False, c)"
    by (cases "decideLeft (word_of_nat i) bc") (auto simp: verdict_def)
  then have "splitLoop decideLeft decideRight i k bc = splitLoop decideLeft decideRight (i + 1) k c"
    using le by (subst splitLoop.simps) simp
  moreover have "verdict (splitLoop decideLeft decideRight (i + 1) k c) = Inr False"
    using Suc.hyps(2) Suc.prems by (intro Suc.hyps(1)) simp_all
  ultimately show ?case by simp
qed

lemma unat_size_minus_3:
  assumes "3 \<le> n" and "n < 2 ^ 64"
  shows "unat (word_of_nat n - 3 :: 64 word) = n - 3"
proof -
  have "(word_of_nat n - 3 :: 64 word) = word_of_nat (n - 3)"
    using assms(1) by (simp add: of_nat_diff)
  moreover have "n - 3 < 2 ^ 64" using assms(2) by simp
  ultimately show ?thesis by (simp add: unat_of_nat)
qed

text \<open>
  C4: for \<^verbatim>\<open>splitAndSearch\<close> with a budget \<open>k > 0\<close>, let \<open>s1, e1\<close> be the left sub-pair
  and \<open>s2, e2\<close> the right sub-pair at the divider. The left budgets are tried in
  increasing order from \<open>leftSize - 3\<close> up to \<open>k\<close>:
  \<^item> if the decision on the left sub-pair fails for every budget from \<open>leftSize - 3\<close>
    up to \<open>i0 - 1\<close> and succeeds for \<open>i0 \<le> k\<close>, the result of \<^verbatim>\<open>splitAndSearch\<close> is the
    result of the decision on the right sub-pair with the budget \<open>k - i0\<close>, whatever
    that result is and whatever the left decision would give for a larger budget;
  \<^item> if it fails for every budget from \<open>leftSize - 3\<close> up to \<open>k\<close>, the result is false,
    whatever the left decision would give beyond \<open>k\<close>.
  Results are compared without the diagnostics counter. \<open>leftSize\<close> is a \<^verbatim>\<open>size_t\<close> of
  at least 3.
\<close>

theorem splitAndSearch_first_feasible_left_budget:
  assumes "0 < k"
    and "3 \<le> getSize ops (subGraph ops g (fst divider) (snd divider))"
    and "getSize ops (subGraph ops g (fst divider) (snd divider)) < 2 ^ 64"
  shows "(getSize ops (subGraph ops g (fst divider) (snd divider)) - 3 \<le> i0
          \<and> i0 \<le> nat k
          \<and> (\<forall>j. getSize ops (subGraph ops g (fst divider) (snd divider)) - 3 \<le> j \<and> j < i0
                \<longrightarrow> verdict (flipDistanceDecision ops fuel
                               (subGraph ops g (fst divider) (snd divider))
                               (subGraph ops target (fst divider) (snd divider))
                               (word_of_nat j) 0) = Inr False)
          \<and> verdict (flipDistanceDecision ops fuel (subGraph ops g (fst divider) (snd divider))
                      (subGraph ops target (fst divider) (snd divider)) (word_of_nat i0) 0)
              = Inr True
          \<longrightarrow> verdict (splitAndSearch ops (Suc fuel) target g divider k sources bc)
                = verdict (flipDistanceDecision ops fuel
                             (subGraph ops g (snd divider) (fst divider))
                             (subGraph ops target (snd divider) (fst divider))
                             (word_of_int (k - int i0)) 0))
         \<and> ((\<forall>j. getSize ops (subGraph ops g (fst divider) (snd divider)) - 3 \<le> j
                  \<and> j \<le> nat k
                \<longrightarrow> verdict (flipDistanceDecision ops fuel
                               (subGraph ops g (fst divider) (snd divider))
                               (subGraph ops target (fst divider) (snd divider))
                               (word_of_nat j) 0) = Inr False)
          \<longrightarrow> verdict (splitAndSearch ops (Suc fuel) target g divider k sources bc)
                = Inr False)"
proof -
  let ?s1 = "subGraph ops g (fst divider) (snd divider)"
  let ?e1 = "subGraph ops target (fst divider) (snd divider)"
  let ?s2 = "subGraph ops g (snd divider) (fst divider)"
  let ?e2 = "subGraph ops target (snd divider) (fst divider)"
  have start: "unat (word_of_nat (getSize ops ?s1) - 3 :: 64 word) = getSize ops ?s1 - 3"
    using assms(2,3) by (rule unat_size_minus_3)
  have run: "splitAndSearch ops (Suc fuel) target g divider k sources bc =
      splitLoop (flipDistanceDecision ops fuel ?s1 ?e1) (flipDistanceDecision ops fuel ?s2 ?e2)
        (getSize ops ?s1 - 3) k bc"
    using assms(1) by (simp add: splitAndSearch.simps Let_def start)
  have cnt: "\<And>s e i. counting 0 (flipDistanceDecision ops fuel s e i)"
    using procedures_counting [of ops fuel] by blast
  have first: "verdict (splitAndSearch ops (Suc fuel) target g divider k sources bc)
                = verdict (flipDistanceDecision ops fuel ?s2 ?e2 (word_of_int (k - int i0)) 0)"
    if "getSize ops ?s1 - 3 \<le> i0" "i0 \<le> nat k"
      "\<forall>j. getSize ops ?s1 - 3 \<le> j \<and> j < i0
         \<longrightarrow> verdict (flipDistanceDecision ops fuel ?s1 ?e1 (word_of_nat j) 0) = Inr False"
      "verdict (flipDistanceDecision ops fuel ?s1 ?e1 (word_of_nat i0) 0) = Inr True"
    unfolding run using that by (intro splitLoop_first_feasible cnt) simp_all
  have none: "verdict (splitAndSearch ops (Suc fuel) target g divider k sources bc) = Inr False"
    if "\<forall>j. getSize ops ?s1 - 3 \<le> j \<and> j \<le> nat k
         \<longrightarrow> verdict (flipDistanceDecision ops fuel ?s1 ?e1 (word_of_nat j) 0) = Inr False"
    unfolding run using that by (intro splitLoop_exhausted cnt) simp_all
  from first none show ?thesis by blast
qed

theorem splitAndSearch_first_feasible_left_budget_witness:
  "(0::int) < 4 \<and> (0::int) < 3
   \<and> 3 \<le> getSize polyOps (subGraph polyOps heptStart 0 5)
   \<and> getSize polyOps (subGraph polyOps heptStart 0 5) < 2 ^ 64
   \<and> getSize polyOps (subGraph polyOps heptStart 0 5) - 3 \<le> 4 \<and> 4 \<le> nat 4
   \<and> verdict (flipDistanceDecision polyOps 9 (subGraph polyOps heptStart 0 5)
         (subGraph polyOps heptEnd 0 5) 3 0) = Inr False
   \<and> verdict (flipDistanceDecision polyOps 9 (subGraph polyOps heptStart 0 5)
         (subGraph polyOps heptEnd 0 5) 4 0) = Inr True
   \<and> verdict (flipDistanceDecision polyOps 9 (subGraph polyOps heptStart 5 0)
         (subGraph polyOps heptEnd 5 0) 0 0) = Inr True
   \<and> verdict (splitAndSearch polyOps (Suc 9) heptEnd heptStart (0, 5) 4 [] 0) = Inr True
   \<and> verdict (splitAndSearch polyOps (Suc 9) heptEnd heptStart (0, 5) 3 [] 0) = Inr False"
proof -
  let ?size = "getSize polyOps (subGraph polyOps heptStart (fst ((0, 5) :: edge)) (snd ((0, 5) :: edge)))"
  let ?left = "\<lambda>j. verdict (flipDistanceDecision polyOps 9
                 (subGraph polyOps heptStart (fst ((0, 5) :: edge)) (snd ((0, 5) :: edge)))
                 (subGraph polyOps heptEnd (fst ((0, 5) :: edge)) (snd ((0, 5) :: edge))) (word_of_nat j) 0)"
  have sz: "getSize polyOps (subGraph polyOps heptStart 0 5) = 6"
    by code_simp
  have l3: "verdict (flipDistanceDecision polyOps 9 (subGraph polyOps heptStart 0 5)
         (subGraph polyOps heptEnd 0 5) 3 0) = Inr False"
    by code_simp
  have l4: "verdict (flipDistanceDecision polyOps 9 (subGraph polyOps heptStart 0 5)
         (subGraph polyOps heptEnd 0 5) 4 0) = Inr True"
    by code_simp
  have r0: "verdict (flipDistanceDecision polyOps 9 (subGraph polyOps heptStart 5 0)
         (subGraph polyOps heptEnd 5 0) 0 0) = Inr True"
    by code_simp
  have before: "\<forall>j. ?size - 3 \<le> j \<and> j < 4 \<longrightarrow> ?left j = Inr False"
  proof (intro allI impI)
    fix j :: nat
    assume "?size - 3 \<le> j \<and> j < 4"
    then have "j = 3" using sz by simp
    then show "?left j = Inr False" using l3 by simp
  qed
  have upto: "\<forall>j. ?size - 3 \<le> j \<and> j \<le> nat 3 \<longrightarrow> ?left j = Inr False"
  proof (intro allI impI)
    fix j :: nat
    assume "?size - 3 \<le> j \<and> j \<le> nat 3"
    then have "j = 3" using sz by simp
    then show "?left j = Inr False" using l3 by simp
  qed
  from splitAndSearch_first_feasible_left_budget
    [where k = 4 and ops = polyOps and g = heptStart and target = heptEnd
       and divider = "(0, 5)" and ?i0.0 = 4 and fuel = 9 and sources = "[]" and bc = 0]
    sz before l4 r0
  have first: "verdict (splitAndSearch polyOps (Suc 9) heptEnd heptStart (0, 5) 4 [] 0) = Inr True"
    by simp
  from splitAndSearch_first_feasible_left_budget
    [where k = 3 and ops = polyOps and g = heptStart and target = heptEnd
       and divider = "(0, 5)" and ?i0.0 = 3 and fuel = 9 and sources = "[]" and bc = 0]
    sz upto
  have none: "verdict (splitAndSearch polyOps (Suc 9) heptEnd heptStart (0, 5) 3 [] 0) = Inr False"
    by simp
  from first none sz l3 l4 r0 show ?thesis by simp
qed

section \<open>The first free edge of the flat search\<close>

lemma scanFree_first:
  assumes "\<forall>x \<in> set pre. fst (flip ops (fst (flip ops g x)) (snd (flip ops g x))) = g"
    and "\<forall>x \<in> set pre. \<not> hasEdge ops target (snd (flip ops g x))"
    and "hasEdge ops target (snd (flip ops g e))"
  shows "scanFree ops g target (pre @ e # post)
           = Inr (e, snd (flip ops g e), fst (flip ops g e))"
  using assms by (induction pre) (simp_all add: case_prod_beta)

text \<open>
  C5 fails as stated where assertions are active, as in the source file: on the
  pentagon \<open>pentFan0\<close> with the target \<open>pentFan1\<close> the first edge \<open>(0, 2)\<close> flips to an
  edge of the target and is no member of the sources \<open>[(0, 3)]\<close>, and the call does not
  return false: \<^verbatim>\<open>assert(assertNonTrivial(g, end))\<close> fails on entry and aborts it.
\<close>

theorem search_aborts_on_free_edge:
  "assertsActive polyOps
   \<and> getEdges polyOps pentFan0 = (0, 2) # [(0, 3)]
   \<and> hasEdge polyOps pentFan1 (snd (flip polyOps pentFan0 (0, 2)))
   \<and> ((0, 2) :: edge) \<notin> set [(0, 3)]
   \<and> search polyOps (Suc 0) pentFan1 [(0, 3)] pentFan0 3 0 = Inl AssertionFailed
   \<and> search polyOps 9 pentFan1 [(0, 3)] pentFan0 3 0 = Inl AssertionFailed"
  by code_simp

text \<open>
  C5, amended: in the flat-edge-set search, let \<open>e\<close> be the first edge of \<open>g\<close>, in
  iteration order, whose flip gives an edge of the target, and let \<open>e\<close> be no member of
  \<open>sources\<close>. Where assertions are compiled out, the call returns false, unless it
  returned true at the test \<^verbatim>\<open>g == end && k >= 0\<close> before the loop; it does so with any
  fuel, a single unit included, so without any recursive call: no later edge and no
  speculative branch is examined. Where assertions are active, the call is aborted on
  entry by \<^verbatim>\<open>assert(assertNonTrivial(g, end))\<close>, because such an edge is a free edge.
  Flipping an edge and flipping the result back restores the graph (the flip involution
  of the triangulation).
\<close>

theorem search_first_free_edge_not_source:
  assumes "\<forall>x \<in> set (getEdges ops g).
             fst (flip ops (fst (flip ops g x)) (snd (flip ops g x))) = g"
    and "getEdges ops g = pre @ e # post"
    and "\<forall>x \<in> set pre. \<not> hasEdge ops target (snd (flip ops g x))"
    and "hasEdge ops target (snd (flip ops g e))"
    and "e \<notin> set sources"
  shows "(assertsActive ops
            \<longrightarrow> search ops (Suc fuel) target sources g k bc = Inl AssertionFailed)
         \<and> (\<not> assertsActive ops \<and> \<not> (graphEq ops g target \<and> 0 \<le> k)
            \<longrightarrow> search ops (Suc fuel) target sources g k bc = Inr (False, bc + 1))"
proof -
  have scan: "scanFree ops g target (getEdges ops g)
          = Inr (e, snd (flip ops g e), fst (flip ops g e))"
    using assms(1-4) by (simp add: scanFree_first)
  then have "\<not> assertNonTrivial ops g target"
    by (simp add: assertNonTrivial_def assertNoFreeEdge_def)
  then have active: "assertsActive ops
      \<longrightarrow> search ops (Suc fuel) target sources g k bc = Inl AssertionFailed"
    by (simp add: search.simps)
  have "count_list sources e = 0"
    using assms(5) by (simp add: count_list_0_iff)
  with scan have "\<not> assertsActive ops \<and> \<not> (graphEq ops g target \<and> 0 \<le> k)
      \<longrightarrow> search ops (Suc fuel) target sources g k bc = Inr (False, bc + 1)"
    by (simp add: search.simps)
  with active show ?thesis by blast
qed

theorem search_first_free_edge_not_source_witness:
  "fst (flip polyOps (fst (flip polyOps pentFan0 (0, 2))) (snd (flip polyOps pentFan0 (0, 2))))
     = pentFan0
   \<and> fst (flip polyOps (fst (flip polyOps pentFan0 (0, 3))) (snd (flip polyOps pentFan0 (0, 3))))
     = pentFan0
   \<and> getEdges polyOps pentFan0 = [] @ (0, 2) # [(0, 3)]
   \<and> hasEdge polyOps pentFan1 (snd (flip polyOps pentFan0 (0, 2)))
   \<and> ((0, 2) :: edge) \<notin> set [(0, 3)]
   \<and> assertsActive polyOps
   \<and> search polyOps (Suc 0) pentFan1 [(0, 3)] pentFan0 3 0 = Inl AssertionFailed
   \<and> \<not> assertsActive polyOpsRelease
   \<and> \<not> (graphEq polyOpsRelease pentFan0 pentFan1 \<and> (0::int) \<le> 3)
   \<and> search polyOpsRelease (Suc 0) pentFan1 [(0, 3)] pentFan0 3 0 = Inr (False, 1)"
proof -
  have a: "\<forall>x \<in> set (getEdges polyOps pentFan0).
      fst (flip polyOps (fst (flip polyOps pentFan0 x)) (snd (flip polyOps pentFan0 x))) = pentFan0"
    by code_simp
  have b: "getEdges polyOps pentFan0 = [] @ (0, 2) # [(0, 3)]"
    by code_simp
  have c: "hasEdge polyOps pentFan1 (snd (flip polyOps pentFan0 (0, 2)))"
    by code_simp
  have a': "\<forall>x \<in> set (getEdges polyOpsRelease pentFan0).
      fst (flip polyOpsRelease (fst (flip polyOpsRelease pentFan0 x))
             (snd (flip polyOpsRelease pentFan0 x))) = pentFan0"
    by code_simp
  have b': "getEdges polyOpsRelease pentFan0 = [] @ (0, 2) # [(0, 3)]"
    by code_simp
  have c': "hasEdge polyOpsRelease pentFan1 (snd (flip polyOpsRelease pentFan0 (0, 2)))"
    by code_simp
  have d: "((0, 2) :: edge) \<notin> set [(0, 3)]"
    by simp
  have on: "assertsActive polyOps" by code_simp
  have off: "\<not> assertsActive polyOpsRelease"
    "\<not> (graphEq polyOpsRelease pentFan0 pentFan1 \<and> (0::int) \<le> 3)"
    by code_simp+
  have pre: "\<forall>x \<in> set []. \<not> hasEdge polyOps pentFan1 (snd (flip polyOps pentFan0 x))"
    by simp
  have pre': "\<forall>x \<in> set []. \<not> hasEdge polyOpsRelease pentFan1
                                  (snd (flip polyOpsRelease pentFan0 x))"
    by simp
  from search_first_free_edge_not_source [OF a b pre c d, of 0 3 0] on
  have aborted: "search polyOps (Suc 0) pentFan1 [(0, 3)] pentFan0 3 0 = Inl AssertionFailed"
    by simp
  from search_first_free_edge_not_source [OF a' b' pre' c' d, of 0 3 0] off
  have returned: "search polyOpsRelease (Suc 0) pentFan1 [(0, 3)] pentFan0 3 0 = Inr (False, 1)"
    by simp
  from a b c d on off aborted returned show ?thesis by simp
qed

section \<open>Free-flip propagation returns stuck sub-problems\<close>

lemma freeFlipStep_stuck:
  "freeFlipStep ops fd = Inl stuck \<Longrightarrow>
   stuck = fd \<and> assertNoFreeEdge ops (fst (fst fd)) (snd (fst fd))"
  by (auto simp: freeFlipStep_def assertNoFreeEdge_def Let_def split: sum.splits prod.splits)

lemma freeFlipStep_pushed_two: "freeFlipStep ops fd = Inr pushed \<Longrightarrow> length pushed = 2"
  by (auto simp: freeFlipStep_def Let_def split: sum.splits prod.splits)

lemma performFreeFlipsLoop_result:
  assumes "performFreeFlipsLoop ops fuel cur noFree k = Inr (res, k')"
    and "\<forall>p \<in> set noFree. assertNoFreeEdge ops (fst (fst p)) (snd (fst p))"
  shows "(\<forall>p \<in> set res. assertNoFreeEdge ops (fst (fst p)) (snd (fst p)))
         \<and> k' = k - int (committedFreeFlips ops fuel cur)
         \<and> length res = length noFree + length cur + committedFreeFlips ops fuel cur"
  using assms
proof (induction ops fuel cur noFree k rule: performFreeFlipsLoop.induct)
  case (1 ops fuel noFree k)
  then show ?case by simp
next
  case (2 ops fd cur noFree k)
  then show ?case by simp
next
  case (3 ops fuel fd cur noFree k)
  show ?case
  proof (cases "freeFlipStep ops fd")
    case (Inl stuck)
    with freeFlipStep_stuck [OF Inl] "3.prems" "3.IH"(1) [OF Inl]
    show ?thesis by simp
  next
    case (Inr pushed)
    with freeFlipStep_pushed_two [OF Inr] "3.prems" "3.IH"(2) [OF Inr]
    show ?thesis by simp
  qed
qed

lemma performFreeFlipsLoop_returns:
  assumes step: "\<And>fd pushed. ok fd \<Longrightarrow> freeFlipStep ops fd = Inr pushed \<Longrightarrow>
                   (\<forall>p \<in> set pushed. ok p) \<and> sum_list (map \<mu> pushed) < \<mu> fd"
    and pos: "\<And>fd. ok fd \<Longrightarrow> 0 < \<mu> fd"
    and "\<forall>p \<in> set cur. ok p"
    and "sum_list (map \<mu> cur) \<le> fuel"
  shows "\<exists>r. performFreeFlipsLoop ops fuel cur noFree k = Inr r"
  using assms(3,4)
proof (induction fuel arbitrary: cur noFree k)
  case 0
  have "cur = []"
  proof (cases cur)
    case (Cons fd rest)
    with 0 pos [of fd] show ?thesis by simp
  qed simp
  then show ?case by simp
next
  case (Suc fuel)
  show ?case
  proof (cases cur)
    case Nil
    then show ?thesis by simp
  next
    case (Cons fd rest)
    with Suc.prems have fd: "ok fd" and rest: "\<forall>p \<in> set rest. ok p"
      and sum: "\<mu> fd + sum_list (map \<mu> rest) \<le> Suc fuel"
      by simp_all
    show ?thesis
    proof (cases "freeFlipStep ops fd")
      case (Inl stuck)
      have "sum_list (map \<mu> rest) \<le> fuel" using sum pos [OF fd] by simp
      from Suc.IH [OF rest this] Inl Cons show ?thesis by simp
    next
      case (Inr pushed)
      from step [OF fd Inr] have oks: "\<forall>p \<in> set (rev pushed @ rest). ok p"
        and less: "sum_list (map \<mu> pushed) < \<mu> fd"
        using rest by auto
      have "sum_list (map \<mu> (rev pushed @ rest)) \<le> fuel"
        using less sum by (simp add: rev_map [symmetric])
      from Suc.IH [OF oks this] Inr Cons show ?thesis by simp
    qed
  qed
qed

text \<open>
  C6: \<^verbatim>\<open>performFreeFlips\<close> returns, every sub-problem of the returned list passes the
  scan for a free edge without finding one, and the budget has been decremented by
  the number of free flips committed; each committed flip replaces one problem of the
  work list by two, so the list has one more element than flips were committed.
  The loop returns because each decomposition makes the work list smaller in a measure
  \<open>\<mu>\<close> that is positive on the problems \<open>ok\<close> that the decomposition can produce; the fuel
  covers the measure of the initial problem.
\<close>

theorem performFreeFlips_returns_stuck_problems:
  assumes "\<forall>fd pushed. ok fd \<and> freeFlipStep ops fd = Inr pushed \<longrightarrow>
             (\<forall>p \<in> set pushed. ok p) \<and> sum_list (map \<mu> pushed) < \<mu> fd"
    and "\<forall>fd. ok fd \<longrightarrow> 0 < \<mu> fd"
    and "ok (initialPair, initialSource)"
    and "\<mu> (initialPair, initialSource) \<le> fuel"
  shows "\<exists>res k'. performFreeFlips ops fuel initialPair initialSource k = Inr (res, k')
           \<and> (\<forall>p \<in> set res. assertNoFreeEdge ops (fst (fst p)) (snd (fst p)))
           \<and> k' = k - int (committedFreeFlips ops fuel [(initialPair, initialSource)])
           \<and> length res = Suc (committedFreeFlips ops fuel [(initialPair, initialSource)])"
proof -
  have "\<exists>r. performFreeFlipsLoop ops fuel [(initialPair, initialSource)] [] k = Inr r"
    using assms by (intro performFreeFlipsLoop_returns [of ok ops \<mu>]) auto
  then obtain res k' where
    run: "performFreeFlipsLoop ops fuel [(initialPair, initialSource)] [] k = Inr (res, k')"
    by auto
  from performFreeFlipsLoop_result [OF run] run show ?thesis
    by (simp add: performFreeFlips_def)
qed

section \<open>Decomposition of a polygon makes the work list smaller\<close>

lemma filter_head_member:
  assumes "filter P xs = y # ys"
  shows "y \<in> set xs"
proof -
  have "y \<in> set (filter P xs)" using assms by simp
  then show ?thesis by simp
qed

lemma polyApexes_range:
  assumes "polyApexes g e = Some (b, d)"
  shows "fst e < b \<and> b < snd e \<and> ((snd e < d \<and> d < int (psize g)) \<or> (0 \<le> d \<and> d < fst e))"
proof -
  let ?joined = "\<lambda>v. polyHasEdge g (polyEdge (fst e) v) \<and> polyHasEdge g (polyEdge v (snd e))"
  from assms obtain bs ds where
    "filter ?joined [fst e + 1 .. snd e - 1] = b # bs"
    "filter ?joined ([snd e + 1 .. int (psize g) - 1] @ [0 .. fst e - 1]) = d # ds"
    by (auto simp: polyApexes_def Let_def split: list.splits)
  then have "b \<in> set [fst e + 1 .. snd e - 1]"
    and "d \<in> set ([snd e + 1 .. int (psize g) - 1] @ [0 .. fst e - 1])"
    by (blast dest: filter_head_member)+
  then show ?thesis by auto
qed

lemma polyEdge_proper:
  assumes "polyProper n e" and "fst e < b" and "b < snd e"
    and "(snd e < d \<and> d < int n) \<or> (0 \<le> d \<and> d < fst e)"
  shows "polyProper n (polyEdge b d)"
  using assms by (auto simp: polyProper_def polyEdge_def)

lemma polyFlip_wf:
  assumes "polyWf g" and "polyProper (psize g) e" and "polyFlip g e = (g', r)"
  shows "polyWf g' \<and> psize g' = psize g \<and> polyProper (psize g) r"
proof (cases "if e \<in> set (diags g) then polyApexes g e else None")
  case None
  with assms show ?thesis by (simp add: polyFlip_def)
next
  case (Some bd)
  obtain b d where bd: "bd = (b, d)" by (cases bd)
  with Some have apex: "polyApexes g e = Some (b, d)" by (simp split: if_splits)
  from polyApexes_range [OF apex] assms(2)
  have r: "polyProper (psize g) (polyEdge b d)" by (intro polyEdge_proper [of _ e]) auto
  from Some bd assms(3) have g': "g' = g\<lparr>diags := map (\<lambda>x. if x = e then polyEdge b d else x) (diags g)\<rparr>"
    and "r = polyEdge b d"
    by (simp_all add: polyFlip_def)
  with r assms(1) show ?thesis by (auto simp: polyWf_def list_all_iff)
qed

lemma scanFree_poly_wf:
  assumes "polyWf g" and "list_all (polyProper (psize g)) es"
    and "scanFree polyOps g t es = Inr (e, r, g')"
  shows "polyWf g' \<and> psize g' = psize g \<and> polyProper (psize g) r"
  using assms
proof (induction es arbitrary: g)
  case Nil
  then show ?case by simp
next
  case (Cons x es)
  obtain g1 r1 where f1: "polyFlip g x = (g1, r1)" by (cases "polyFlip g x")
  from polyFlip_wf [OF Cons.prems(1) _ f1] Cons.prems(2)
  have g1: "polyWf g1" "psize g1 = psize g" "polyProper (psize g) r1" by simp_all
  show ?case
  proof (cases "polyHasEdge t r1")
    case True
    with Cons.prems(3) f1 g1 show ?thesis by (simp add: polyOps_def)
  next
    case False
    obtain g2 r2 where f2: "polyFlip g1 r1 = (g2, r2)" by (cases "polyFlip g1 r1")
    from polyFlip_wf [OF g1(1) _ f2] g1 have g2: "polyWf g2" "psize g2 = psize g" by simp_all
    from False Cons.prems(3) f1 f2 have "scanFree polyOps g2 t es = Inr (e, r, g')"
      by (simp add: polyOps_def)
    from Cons.IH [OF g2(1) _ this] Cons.prems(2) g2(2) show ?thesis by simp
  qed
qed

lemma left_edge_proper:
  assumes "polyProper n (v1, v2)" and "polyProper n e" and "e \<noteq> (v1, v2)"
    and "v1 \<le> fst e" and "snd e \<le> v2"
  shows "polyProper (nat (v2 - v1 + 1)) (polyEdge (fst e - v1) (snd e - v1))"
proof -
  obtain a b where e: "e = (a, b)" by (cases e)
  with assms have "0 \<le> v1" "a + 2 \<le> b" "v1 \<le> a" "b \<le> v2" "\<not> (a = v1 \<and> b = v2)"
    by (simp_all add: polyProper_def)
  then show ?thesis unfolding e polyProper_def polyEdge_def by auto
qed

lemma right_edge_proper:
  assumes "polyProper n (v1, v2)" and "polyProper n e" and "e \<noteq> (v1, v2)"
    and "v2 \<le> fst e \<or> fst e \<le> v1" and "v2 \<le> snd e \<or> snd e \<le> v1"
  shows "polyProper (nat (v1 - v2 + 1 + int n))
           (polyEdge (if v2 \<le> fst e then fst e - v2 else fst e - v2 + int n)
                     (if v2 \<le> snd e then snd e - v2 else snd e - v2 + int n))"
proof -
  obtain a b where e: "e = (a, b)" by (cases e)
  with assms have base: "0 \<le> v1" "v1 + 2 \<le> v2" "v2 < int n" "0 \<le> a" "a + 2 \<le> b" "b < int n"
    "\<not> (a = 0 \<and> b = int n - 1)" "\<not> (a = v1 \<and> b = v2)"
    and side: "v2 \<le> a \<or> a \<le> v1" "v2 \<le> b \<or> b \<le> v1"
    by (simp_all add: polyProper_def)
  consider (high) "v2 \<le> a" | (low) "b \<le> v1" | (across) "a \<le> v1" "v2 \<le> b"
    using side base by linarith
  then show ?thesis
  proof cases
    case high
    with base have "v2 \<le> b" by linarith
    with high base show ?thesis unfolding e polyProper_def polyEdge_def by auto
  next
    case low
    with base have "\<not> v2 \<le> a" "\<not> v2 \<le> b" by linarith+
    with low base show ?thesis unfolding e polyProper_def polyEdge_def by auto
  next
    case across
    with base have "\<not> v2 \<le> a" by linarith
    with across base show ?thesis unfolding e polyProper_def polyEdge_def by auto
  qed
qed

lemma polySubGraph_wf_left:
  assumes "polyWf g" and "polyProper (psize g) (v1, v2)"
  shows "polyWf (polySubGraph g v1 v2) \<and> int (psize (polySubGraph g v1 v2)) = v2 - v1 + 1"
proof -
  from assms(2) have le: "v1 \<le> v2" and big: "v1 + 2 \<le> v2" by (simp_all add: polyProper_def)
  have size: "psize (polySubGraph g v1 v2) = nat (v2 - v1 + 1)"
    using le by (simp add: polySubGraph_def)
  have "polyProper (nat (v2 - v1 + 1)) x" if "x \<in> set (diags (polySubGraph g v1 v2))" for x
  proof -
    have divider: "polyEdge v1 v2 = (v1, v2)" using le by (simp add: polyEdge_def)
    from that obtain e where "e \<in> set (diags g)" "e \<noteq> (v1, v2)"
      "polyVertexFilter v1 v2 (fst e)" "polyVertexFilter v1 v2 (snd e)"
      and x: "x = polyEdge (polyVertexMapper g v1 v2 (fst e)) (polyVertexMapper g v1 v2 (snd e))"
      by (auto simp: polySubGraph_def divider)
    with le have "v1 \<le> fst e" "snd e \<le> v2" by (simp_all add: polyVertexFilter_def)
    moreover from \<open>e \<in> set (diags g)\<close> assms(1) have pe: "polyProper (psize g) e"
      by (simp add: polyWf_def list_all_iff)
    moreover from pe \<open>v1 \<le> fst e\<close> have "v1 \<le> snd e" by (simp add: polyProper_def)
    ultimately show ?thesis
      using left_edge_proper [OF assms(2) pe \<open>e \<noteq> (v1, v2)\<close>] x
      by (simp add: polyVertexMapper_def)
  qed
  with size big show ?thesis by (simp add: polyWf_def list_all_iff)
qed

lemma polySubGraph_wf_right:
  assumes "polyWf g" and "polyProper (psize g) (v1, v2)"
  shows "polyWf (polySubGraph g v2 v1)
         \<and> int (psize (polySubGraph g v2 v1)) = v1 - v2 + 1 + int (psize g)"
proof -
  from assms(2) have gt: "\<not> v2 \<le> v1" and bounds: "0 \<le> v1" "v1 + 2 \<le> v2" "v2 < int (psize g)"
    and notall: "\<not> (v1 = 0 \<and> v2 = int (psize g) - 1)"
    by (simp_all add: polyProper_def)
  have size: "psize (polySubGraph g v2 v1) = nat (v1 - v2 + 1 + int (psize g))"
    using gt by (simp add: polySubGraph_def)
  have "polyProper (nat (v1 - v2 + 1 + int (psize g))) x"
    if "x \<in> set (diags (polySubGraph g v2 v1))" for x
  proof -
    have divider: "polyEdge v2 v1 = (v1, v2)" using gt by (simp add: polyEdge_def)
    from that obtain e where e0: "e \<in> set (diags g)" "e \<noteq> (v1, v2)"
      "polyVertexFilter v2 v1 (fst e)" "polyVertexFilter v2 v1 (snd e)"
      and x: "x = polyEdge (polyVertexMapper g v2 v1 (fst e)) (polyVertexMapper g v2 v1 (snd e))"
      by (auto simp: polySubGraph_def divider)
    with gt have e: "e \<in> set (diags g)" "e \<noteq> (v1, v2)"
      "v2 \<le> fst e \<or> fst e \<le> v1" "v2 \<le> snd e \<or> snd e \<le> v1"
      by (simp_all add: polyVertexFilter_def)
    from e(1) assms(1) have pe: "polyProper (psize g) e"
      by (simp add: polyWf_def list_all_iff)
    from right_edge_proper [OF assms(2) pe e(2-4)] show ?thesis
      unfolding x polyVertexMapper_def .
  qed
  moreover have "3 \<le> nat (v1 - v2 + 1 + int (psize g))"
    using bounds notall by linarith
  ultimately show ?thesis using size by (simp add: polyWf_def list_all_iff)
qed

lemma poly_freeFlipStep_smaller:
  assumes "polyWf (fst (fst fd))" and "freeFlipStep polyOps fd = Inr pushed"
  shows "(\<forall>p \<in> set pushed. polyWf (fst (fst p)))
         \<and> sum_list (map (\<lambda>p. 2 * psize (fst (fst p)) - 5) pushed) < 2 * psize (fst (fst fd)) - 5"
proof -
  let ?g1 = "fst (fst fd)" and ?g2 = "snd (fst fd)"
  from assms(2) obtain e r g1' where
    scan: "scanFree polyOps ?g1 ?g2 (getEdges polyOps ?g1) = Inr (e, r, g1')"
    by (auto simp: freeFlipStep_def Let_def split: sum.splits)
  have "list_all (polyProper (psize ?g1)) (getEdges polyOps ?g1)"
    using assms(1) by (simp add: polyWf_def polyOps_def)
  from scanFree_poly_wf [OF assms(1) this scan]
  have g1': "polyWf g1'" "psize g1' = psize ?g1" "polyProper (psize g1') (fst r, snd r)" by simp_all
  from polySubGraph_wf_left [OF g1'(1,3)] polySubGraph_wf_right [OF g1'(1,3)]
  have left: "polyWf (polySubGraph g1' (fst r) (snd r))"
    and right: "polyWf (polySubGraph g1' (snd r) (fst r))"
    and sizes: "int (psize (polySubGraph g1' (fst r) (snd r)))
                  + int (psize (polySubGraph g1' (snd r) (fst r))) = int (psize ?g1) + 2"
    using g1'(2) by simp_all
  from left right have "3 \<le> psize (polySubGraph g1' (fst r) (snd r))"
    and "3 \<le> psize (polySubGraph g1' (snd r) (fst r))"
    by (simp_all add: polyWf_def)
  with sizes have less: "(2 * psize (polySubGraph g1' (fst r) (snd r)) - 5)
      + (2 * psize (polySubGraph g1' (snd r) (fst r)) - 5) < 2 * psize ?g1 - 5"
    by linarith
  from assms(2) scan have "map (\<lambda>p. fst (fst p)) pushed
      = [polySubGraph g1' (fst r) (snd r), polySubGraph g1' (snd r) (fst r)]"
    by (auto simp: freeFlipStep_def Let_def polyOps_def)
  then obtain p1 p2 where "pushed = [p1, p2]"
    and "fst (fst p1) = polySubGraph g1' (fst r) (snd r)"
    and "fst (fst p2) = polySubGraph g1' (snd r) (fst r)"
    by auto
  with left right less show ?thesis by simp
qed

theorem performFreeFlips_returns_stuck_problems_witness:
  "polyWf octStart \<and> 2 * psize octStart - 5 \<le> 11
   \<and> performFreeFlips polyOps 11 (octStart, octEnd) [] 5
       = Inr ([((\<lparr>psize = 7, diags = [(1, 5), (2, 4), (2, 5), (0, 5)]\<rparr>,
                  \<lparr>psize = 7, diags = [(1, 5), (2, 4), (2, 5), (0, 5)]\<rparr>), [((0, 5), (5, 6))]),
                ((\<lparr>psize = 3, diags = []\<rparr>, \<lparr>psize = 3, diags = []\<rparr>),
                 [((0, 1), (1, 2))])], 4)
   \<and> assertNoFreeEdge polyOps \<lparr>psize = 7, diags = [(1, 5), (2, 4), (2, 5), (0, 5)]\<rparr>
         \<lparr>psize = 7, diags = [(1, 5), (2, 4), (2, 5), (0, 5)]\<rparr>
   \<and> assertNoFreeEdge polyOps \<lparr>psize = 3, diags = []\<rparr> \<lparr>psize = 3, diags = []\<rparr>
   \<and> committedFreeFlips polyOps 11 [((octStart, octEnd), [])] = 1
   \<and> (4::int) = 5 - int (committedFreeFlips polyOps 11 [((octStart, octEnd), [])])"
proof -
  let ?ok = "\<lambda>p :: poly fd_problem. polyWf (fst (fst p))"
  let ?mu = "\<lambda>p :: poly fd_problem. 2 * psize (fst (fst p)) - 5"
  have wf: "polyWf octStart" by code_simp
  have fuel: "2 * psize octStart - 5 \<le> 11" by code_simp
  have run: "performFreeFlips polyOps 11 (octStart, octEnd) [] 5
       = Inr ([((\<lparr>psize = 7, diags = [(1, 5), (2, 4), (2, 5), (0, 5)]\<rparr>,
                  \<lparr>psize = 7, diags = [(1, 5), (2, 4), (2, 5), (0, 5)]\<rparr>), [((0, 5), (5, 6))]),
                ((\<lparr>psize = 3, diags = []\<rparr>, \<lparr>psize = 3, diags = []\<rparr>),
                 [((0, 1), (1, 2))])], 4)"
    by code_simp
  have count: "committedFreeFlips polyOps 11 [((octStart, octEnd), [])] = 1" by code_simp
  have step: "\<forall>fd pushed. ?ok fd \<and> freeFlipStep polyOps fd = Inr pushed \<longrightarrow>
                (\<forall>p \<in> set pushed. ?ok p) \<and> sum_list (map ?mu pushed) < ?mu fd"
    using poly_freeFlipStep_smaller by blast
  have pos: "\<forall>fd. ?ok fd \<longrightarrow> 0 < ?mu fd"
    by (auto simp: polyWf_def)
  from performFreeFlips_returns_stuck_problems
    [of ?ok polyOps ?mu "(octStart, octEnd)" "[]" 11 5, OF step pos] wf fuel
  obtain res k' where "performFreeFlips polyOps 11 (octStart, octEnd) [] 5 = Inr (res, k')"
    and stuck: "\<forall>p \<in> set res. assertNoFreeEdge polyOps (fst (fst p)) (snd (fst p))"
    and k': "k' = 5 - int (committedFreeFlips polyOps 11 [((octStart, octEnd), [])])"
    by auto
  with run have res: "res = [((\<lparr>psize = 7, diags = [(1, 5), (2, 4), (2, 5), (0, 5)]\<rparr>,
                  \<lparr>psize = 7, diags = [(1, 5), (2, 4), (2, 5), (0, 5)]\<rparr>), [((0, 5), (5, 6))]),
                ((\<lparr>psize = 3, diags = []\<rparr>, \<lparr>psize = 3, diags = []\<rparr>),
                 [((0, 1), (1, 2))])]" and "k' = 4"
    by simp_all
  with stuck k' wf fuel run count show ?thesis by simp
qed

section \<open>The candidate sets of the edge-pair search\<close>

lemma pickEdge_restores:
  assumes gen: "\<And>cur forbid bc b cur' forbid' bc'.
                  generate (cur, forbid, bc) = Inr (b, (cur', forbid', bc')) \<Longrightarrow>
                  cur' = cur \<and> forbid' = forbid"
    and "pickEdge ops g generate e (cur, forbid, bc) = Inr (b, (cur', forbid', bc'))"
  shows "cur' = cur \<and> forbid' = forbid"
proof (cases "\<not> flippable ops g e \<or> count forbid e > 0")
  case True
  with assms(2) show ?thesis by (simp add: pickEdge_def)
next
  case False
  with assms(2) obtain c1 f1 where
    "generate (cur @ [e], addNeighborsToForbid ops e g forbid, bc) = Inr (b, (c1, f1, bc'))"
    and out: "cur' = butlast c1" "forbid' = removeNeighborsFromForbid ops e g f1"
    by (auto simp: pickEdge_def split: sum.splits)
  from gen [OF this(1)] out show ?thesis
    by (simp add: removeNeighbors_after_addNeighbors)
qed

lemma generateNext_restores:
  "generateNext ops g srch pairs (cur, forbid, bc) = Inr (b, (cur', forbid', bc')) \<Longrightarrow>
   cur' = cur \<and> forbid' = forbid"
proof (induction pairs arbitrary: cur forbid bc b cur' forbid' bc')
  case Nil
  then show ?case by (auto split: sum.splits)
next
  case (Cons pair pairs)
  let ?gen = "\<lambda>s. generateNext ops g srch pairs s"
  from Cons.prems obtain b0 c0 f0 bc0 where
    skip: "?gen (cur, forbid, bc) = Inr (b0, (c0, f0, bc0))"
    by (auto split: sum.splits)
  from Cons.IH [OF skip] have st0: "c0 = cur" "f0 = forbid" by simp_all
  show ?case
  proof (cases b0)
    case True
    with Cons.prems skip st0 show ?thesis by simp
  next
    case b0: False
    from Cons.prems skip b0 st0 obtain b1 c1 f1 bc1 where
      first: "pickEdge ops g ?gen (fst pair) (cur, forbid, bc0) = Inr (b1, (c1, f1, bc1))"
      by (auto split: sum.splits)
    from pickEdge_restores [of ?gen, OF Cons.IH first] have st1: "c1 = cur" "f1 = forbid"
      by simp_all
    show ?thesis
    proof (cases b1)
      case True
      with Cons.prems skip b0 st0 first st1 show ?thesis by simp
    next
      case b1: False
      from Cons.prems skip b0 st0 first b1 st1 obtain b2 c2 f2 bc2 where
        second: "pickEdge ops g ?gen (snd pair) (cur, forbid, bc1) = Inr (b2, (c2, f2, bc2))"
        by (auto split: sum.splits)
      from pickEdge_restores [of ?gen, OF Cons.IH second] have st2: "c2 = cur" "f2 = forbid"
        by simp_all
      from Cons.prems skip b0 st0 first b1 st1 second st2 show ?thesis
        by (cases b2) simp_all
    qed
  qed
qed

lemma pickEdge_agree:
  assumes "flippable ops g e \<Longrightarrow> count forbid e = 0 \<Longrightarrow>
           generate (cur @ [e], addNeighborsToForbid ops e g forbid, bc)
             = generate' (cur @ [e], addNeighborsToForbid ops e g forbid, bc)"
  shows "pickEdge ops g generate e (cur, forbid, bc) = pickEdge ops g generate' e (cur, forbid, bc)"
proof (cases "\<not> flippable ops g e \<or> count forbid e > 0")
  case True
  then show ?thesis by (simp add: pickEdge_def)
next
  case False
  then have "flippable ops g e" and "count forbid e = 0"
    by (simp_all add: count_eq_zero_iff)
  from assms [OF this] False show ?thesis by (simp add: pickEdge_def)
qed

lemma isIndependentSet_snoc:
  assumes cover: "\<forall>a b. flippable ops g a \<and> flippable ops g b
                   \<and> (shareTriangle ops g a b \<or> shareTriangle ops g b a)
                   \<longrightarrow> b \<in> set (neighborList (getNeighbors ops g a))"
    and indep: "isIndependentSet ops cur g"
    and tracked: "\<forall>c \<in> set cur. flippable ops g c
                    \<and> set (neighborList (getNeighbors ops g c)) \<subseteq> set_mset forbid"
    and e: "flippable ops g e" "count forbid e = 0"
  shows "isIndependentSet ops (cur @ [e]) g"
proof -
  have free: "\<not> shareTriangle ops g c e \<and> \<not> shareTriangle ops g e c" if "c \<in> set cur" for c
  proof -
    from tracked that have c: "flippable ops g c"
      and sub: "set (neighborList (getNeighbors ops g c)) \<subseteq> set_mset forbid"
      by auto
    from e(2) have "e \<notin> set_mset forbid" by (simp add: count_eq_zero_iff)
    with sub have "e \<notin> set (neighborList (getNeighbors ops g c))" by blast
    with cover c e(1) show ?thesis by blast
  qed
  from indep free show ?thesis
    by (auto simp: isIndependentSet_def list_all_iff)
qed

lemma generateNext_agree:
  assumes cover: "\<forall>a b. flippable ops g a \<and> flippable ops g b
                   \<and> (shareTriangle ops g a b \<or> shareTriangle ops g b a)
                   \<longrightarrow> b \<in> set (neighborList (getNeighbors ops g a))"
    and agree: "\<And>xs c. pickedFrom pairs xs \<Longrightarrow> isIndependentSet ops (cur @ xs) g \<Longrightarrow>
                  srch (cur @ xs) c = srch' (cur @ xs) c"
    and tracked: "\<forall>c \<in> set cur. flippable ops g c
                    \<and> set (neighborList (getNeighbors ops g c)) \<subseteq> set_mset forbid"
    and indep: "isIndependentSet ops cur g"
  shows "generateNext ops g srch pairs (cur, forbid, bc)
           = generateNext ops g srch' pairs (cur, forbid, bc)"
  using agree tracked indep
proof (induction pairs arbitrary: cur forbid bc)
  case Nil
  from Nil.prems(1) [of "[]"] Nil.prems(3) show ?case by simp
next
  case (Cons pair pairs)
  let ?gen = "\<lambda>s. generateNext ops g srch pairs s"
  let ?gen' = "\<lambda>s. generateNext ops g srch' pairs s"
  have skip: "?gen (cur, forbid, c) = ?gen' (cur, forbid, c)" for c
    using Cons.prems by (intro Cons.IH) simp_all
  have pick: "pickEdge ops g ?gen e (cur, forbid, c) = pickEdge ops g ?gen' e (cur, forbid, c)"
    if e: "e = fst pair \<or> e = snd pair" for e c
  proof (rule pickEdge_agree)
    assume fl: "flippable ops g e" and cnt: "count forbid e = 0"
    let ?forbid = "addNeighborsToForbid ops e g forbid"
    have sup: "set_mset forbid \<subseteq> set_mset ?forbid"
      and own: "set (neighborList (getNeighbors ops g e)) \<subseteq> set_mset ?forbid"
      by (auto simp: addNeighborsToForbid_def fold_add_mset_eq)
    have tracked': "\<forall>c \<in> set (cur @ [e]). flippable ops g c
                      \<and> set (neighborList (getNeighbors ops g c)) \<subseteq> set_mset ?forbid"
      using Cons.prems(2) fl sup own by auto
    have indep': "isIndependentSet ops (cur @ [e]) g"
      using cover Cons.prems(3) Cons.prems(2) fl cnt by (rule isIndependentSet_snoc)
    have agree': "srch ((cur @ [e]) @ xs) c' = srch' ((cur @ [e]) @ xs) c'"
      if "pickedFrom pairs xs" "isIndependentSet ops ((cur @ [e]) @ xs) g" for xs c'
      using Cons.prems(1) [of "e # xs" c'] that e by simp
    show "?gen (cur @ [e], ?forbid, c) = ?gen' (cur @ [e], ?forbid, c)"
      using agree' tracked' indep' by (rule Cons.IH)
  qed
  show ?case
  proof (cases "?gen' (cur, forbid, bc)")
    case (Inl s)
    with skip [of bc] show ?thesis by simp
  next
    case (Inr r0)
    obtain b0 c0 f0 bc0 where r0: "r0 = (b0, (c0, f0, bc0))" by (cases r0) auto
    from generateNext_restores [of ops g srch' pairs cur forbid bc b0 c0 f0 bc0] Inr r0
    have st0: "c0 = cur" "f0 = forbid" by simp_all
    show ?thesis
    proof (cases b0)
      case True
      with Inr r0 skip [of bc] show ?thesis by simp
    next
      case b0: False
      have first: "pickEdge ops g ?gen (fst pair) (cur, forbid, bc0)
                     = pickEdge ops g ?gen' (fst pair) (cur, forbid, bc0)"
        by (rule pick) simp
      show ?thesis
      proof (cases "pickEdge ops g ?gen' (fst pair) (cur, forbid, bc0)")
        case (Inl s)
        with Inr r0 b0 st0 skip [of bc] first show ?thesis by simp
      next
        case r1some: (Inr r1)
        obtain b1 c1 f1 bc1 where r1: "r1 = (b1, (c1, f1, bc1))" by (cases r1) auto
        from pickEdge_restores [of ?gen' ops g "fst pair" cur forbid bc0 b1 c1 f1 bc1]
          generateNext_restores [of ops g srch' pairs] r1some r1
        have st1: "c1 = cur" "f1 = forbid" by blast+
        have second: "pickEdge ops g ?gen (snd pair) (cur, forbid, bc1)
                        = pickEdge ops g ?gen' (snd pair) (cur, forbid, bc1)"
          by (rule pick) simp
        from Inr r0 b0 st0 skip [of bc] first r1some r1 st1 second show ?thesis
          by (cases b1) simp_all
      qed
    qed
  qed
qed

text \<open>
  C7: the edge-pair entry point hands to the flat-edge-set search only independent
  sets that take at most one edge from each input pair. Stated on \<^verbatim>\<open>searchPairs\<close>: past
  its entry assertion, its result and counter are those of the same enumeration run
  with any procedure \<open>srch\<close> in place of the flat search, as long as \<open>srch\<close> agrees with
  the flat search on the sets \<open>cur\<close> with \<open>pickedFrom sources cur\<close> and
  \<open>isIndependentSet cur g\<close>; on any other set \<open>srch\<close> is arbitrary, so no other set is
  ever handed over. The triangulation is assumed to list, among the neighbours of a
  flippable edge, every flippable edge that shares a triangle with it.
\<close>

theorem searchPairs_candidates_independent:
  assumes "\<forall>a b. flippable ops g a \<and> flippable ops g b
             \<and> (shareTriangle ops g a b \<or> shareTriangle ops g b a)
             \<longrightarrow> b \<in> set (neighborList (getNeighbors ops g a))"
    and "\<forall>cur c. pickedFrom sources cur \<and> isIndependentSet ops cur g
           \<longrightarrow> srch cur c = search ops fuel target cur g k c"
  shows "searchPairs ops (Suc fuel) target sources g k bc
           = (if assertsActive ops \<and> \<not> assertNonTrivial ops g target
              then Inl AssertionFailed
              else map_sum id (\<lambda>r. (fst r, snd (snd (snd r))))
                     (generateNext ops g srch sources ([], {#}, bc)))"
proof -
  have "generateNext ops g srch sources ([], {#}, bc)
          = generateNext ops g (\<lambda>cur c. search ops fuel target cur g k c) sources ([], {#}, bc)"
    using assms by (intro generateNext_agree) (simp_all add: isIndependentSet_def)
  then show ?thesis
    by (simp add: searchPairs.simps split: sum.splits prod.splits)
qed

theorem searchPairs_candidates_independent_witness:
  "assertNonTrivial polyOps hexStart hexEnd
   \<and> searchPairs polyOps (Suc 1) hexEnd [((1, 5), (2, 5)), ((2, 4), (2, 5))] hexStart 2 0
     = Inr (False, 6)
   \<and> map_sum id (\<lambda>r. (fst r, snd (snd (snd r))))
       (generateNext polyOps hexStart
          (\<lambda>cur c. if pickedFrom [((1, 5), (2, 5)), ((2, 4), (2, 5))] cur
                       \<and> isIndependentSet polyOps cur hexStart
                     then search polyOps 1 hexEnd cur hexStart 2 c else Inr (True, c))
          [((1, 5), (2, 5)), ((2, 4), (2, 5))] ([], {#}, 0))
     = Inr (False, 6)"
proof -
  let ?pairs = "[((1, 5), (2, 5)), ((2, 4), (2, 5))] :: edge_pairs"
  let ?srch = "\<lambda>cur c. if pickedFrom ?pairs cur \<and> isIndependentSet polyOps cur hexStart
                         then search polyOps 1 hexEnd cur hexStart 2 c else Inr (True, c)"
  have listed: "list_all (\<lambda>a. list_all (\<lambda>b.
        \<not> (polyShareTriangle hexStart a b \<or> polyShareTriangle hexStart b a)
        \<or> b \<in> set (neighborList (polyNeighbors hexStart a))) (diags hexStart)) (diags hexStart)"
    by code_simp
  have cover: "\<forall>a b. flippable polyOps hexStart a \<and> flippable polyOps hexStart b
             \<and> (shareTriangle polyOps hexStart a b \<or> shareTriangle polyOps hexStart b a)
             \<longrightarrow> b \<in> set (neighborList (getNeighbors polyOps hexStart a))"
  proof (intro allI impI)
    fix a b
    assume h: "flippable polyOps hexStart a \<and> flippable polyOps hexStart b
             \<and> (shareTriangle polyOps hexStart a b \<or> shareTriangle polyOps hexStart b a)"
    then have "a \<in> set (diags hexStart)" and "b \<in> set (diags hexStart)"
      by (simp_all add: polyOps_def polyFlippable_def)
    with listed h show "b \<in> set (neighborList (getNeighbors polyOps hexStart a))"
      unfolding list_all_iff by (auto simp: polyOps_def)
  qed
  have agree: "\<forall>cur c. pickedFrom ?pairs cur \<and> isIndependentSet polyOps cur hexStart
           \<longrightarrow> ?srch cur c = search polyOps 1 hexEnd cur hexStart 2 c"
    by simp
  have run: "searchPairs polyOps (Suc 1) hexEnd ?pairs hexStart 2 0 = Inr (False, 6)"
    by code_simp
  have nontrivial: "assertNonTrivial polyOps hexStart hexEnd"
    by code_simp
  from searchPairs_candidates_independent
    [of polyOps hexStart ?pairs ?srch 1 hexEnd 2 0, OF cover agree] run nontrivial
  show ?thesis by simp
qed

section \<open>The lower-bound test without wrap-around\<close>

text \<open>
  Where the budget covers the sources, \<open>k \<ge> |sources|\<close>, and the values fit their
  types, nothing wraps: the test fires whenever \<open>(size - 3) - |sources| > k\<close>, and then
  a search that passes its assertions returns false with any fuel.
\<close>

lemma lowerBoundPrune_without_wrap:
  assumes "3 \<le> n" and "n < 2 ^ 64" and "int s \<le> k" and "k < 2 ^ 64"
    and "(int n - 3) - int s > k"
  shows "lowerBoundPrune n k s"
proof -
  have left: "unat (word_of_nat n - 3 :: 64 word) = n - 3"
    using assms(1,2) by (rule unat_size_minus_3)
  have diff: "(word_of_int k - word_of_nat s :: 64 word) = word_of_int (k - int s)"
    by simp
  have bounds: "0 \<le> k - int s" "k - int s < 2 ^ 64"
    using assms(3,4) by simp_all
  have uint_diff: "uint (word_of_int (k - int s) :: 64 word) = k - int s"
    unfolding uint_word_of_int using bounds by simp
  have right: "unat (word_of_int k - word_of_nat s :: 64 word) = nat (k - int s)"
    unfolding diff unat_eq_nat_uint uint_diff ..
  have "nat (k - int s) < n - 3" using assms(1,3,5) by linarith
  then show ?thesis
    unfolding lowerBoundPrune_def by (simp only: word_less_nat_alt left right)
qed

lemma search_pruned_without_wrap:
  assumes "3 \<le> getSize ops g" and "getSize ops g < 2 ^ 64"
    and "int (length sources) \<le> k" and "k < 2 ^ 64"
    and "(int (getSize ops g) - 3) - int (length sources) > k"
    and "\<not> graphEq ops g target"
    and "\<not> assertsActive ops
         \<or> (assertNonTrivial ops g target \<and> isIndependentSet ops sources g)"
  shows "search ops (Suc fuel) target sources g k bc = Inr (False, bc + 1)"
  using lowerBoundPrune_without_wrap [OF assms(1-5)] assms(6,7)
  by (auto simp: search.simps)

section \<open>The free-edge scan when flips are undone exactly\<close>

lemma scanFree_no_free_edge:
  assumes "\<forall>x \<in> set es. fst (flip ops (fst (flip ops g x)) (snd (flip ops g x))) = g"
  shows "(\<exists>g'. scanFree ops g target es = Inl g')
           \<longleftrightarrow> (\<forall>x \<in> set es. \<not> hasEdge ops target (snd (flip ops g x)))"
  using assms by (induction es) (simp_all add: case_prod_beta)

lemma assertNoFreeEdge_iff:
  assumes "\<forall>x \<in> set (getEdges ops g).
             fst (flip ops (fst (flip ops g x)) (snd (flip ops g x))) = g"
  shows "assertNoFreeEdge ops g target
           \<longleftrightarrow> (\<forall>x \<in> set (getEdges ops g). \<not> hasEdge ops target (snd (flip ops g x)))"
proof -
  have "assertNoFreeEdge ops g target
          \<longleftrightarrow> (\<exists>g'. scanFree ops g target (getEdges ops g) = Inl g')"
    by (auto simp: assertNoFreeEdge_def split: sum.splits)
  with scanFree_no_free_edge [OF assms] show ?thesis by simp
qed


end
